(* ===== verification/Prelude.thy ===== *)
theory Prelude
  imports Main "HOL-Library.Word"
begin

text \<open>
  Shared vocabulary of the development: the names of the model's types (references to
  descriptors, promises, cleanup functions, store objects, property names), the flag word
  of a watch descriptor, and the generic lemmas on single-bit masks that every component
  uses to reason about \<open>f & MASK\<close>, \<open>f &= ~MASK\<close> and \<open>f |= MASK\<close>.
  The collection \<open>flag_simps\<close> gathers the facts that decide a flag test; the collection
  \<open>frame_simps\<close> gathers the facts saying which state fields an operation leaves alone.
\<close>

unbundle bit_operations_syntax

named_theorems flag_simps "facts deciding a test of one flag bit"
named_theorems frame_simps "fields of the state that an operation leaves unchanged"

type_synonym wid = nat      \<comment> \<open>reference to a \<open>WatchDescriptor\<close> object\<close>
type_synonym pid = nat      \<comment> \<open>reference to the promise of one run of \<open>runWatch\<close>\<close>
type_synonym cid = nat      \<comment> \<open>reference to a cleanup function returned by a watch body\<close>
type_synonym target = nat   \<comment> \<open>a proxied store object (the proxy target)\<close>
type_synonym pname = string \<comment> \<open>a property name\<close>
type_synonym elem = nat     \<comment> \<open>a host element\<close>

text \<open>
  A JavaScript number used with bitwise operators is converted to a 32-bit integer; the
  flag field \<open>f\<close> of a descriptor is therefore a \<open>32 word\<close>.
\<close>

type_synonym flags = "32 word"

definition has_flag :: "flags \<Rightarrow> flags \<Rightarrow> bool" where
  "has_flag x m \<longleftrightarrow> x AND m \<noteq> 0"

definition single_bit :: "nat \<Rightarrow> flags" where
  "single_bit k = push_bit k 1"

lemma bit_single_bit [flag_simps]: "bit (single_bit k) n \<longleftrightarrow> n = k \<and> k < 32"
  unfolding single_bit_def by (simp only: bit_push_bit_iff bit_1_iff) auto

lemma has_flag_single_bit [flag_simps]:
  assumes "k < 32"
  shows "has_flag x (single_bit k) \<longleftrightarrow> bit x k"
proof
  assume "has_flag x (single_bit k)"
  then obtain n where "bit (x AND single_bit k) n"
    unfolding has_flag_def using bit_eqI [of "x AND single_bit k" 0] by auto
  then show "bit x k" by (auto simp add: bit_and_iff bit_single_bit)
next
  assume "bit x k"
  with assms have "bit (x AND single_bit k) k" by (simp add: bit_and_iff bit_single_bit)
  then show "has_flag x (single_bit k)" unfolding has_flag_def by auto
qed

lemma bit_clear_flag [flag_simps]: "bit (x AND NOT (single_bit k)) n \<longleftrightarrow> bit x n \<and> n \<noteq> k"
  by (auto simp add: bit_and_iff bit_not_iff bit_single_bit dest: bit_imp_possible_bit)

lemma bit_set_flag [flag_simps]: "bit (x OR single_bit k) n \<longleftrightarrow> bit x n \<or> (n = k \<and> k < 32)"
  by (simp add: bit_or_iff bit_single_bit)

text \<open>
  Setting or clearing one flag bit leaves every other bit as it was: the reason the flags
  of a descriptor are independently settable.
\<close>

lemma has_flag_clear_flag [flag_simps]:
  "j < 32 \<Longrightarrow> k < 32 \<Longrightarrow>
   has_flag (x AND NOT (single_bit j)) (single_bit k) \<longleftrightarrow> has_flag x (single_bit k) \<and> k \<noteq> j"
  by (simp add: has_flag_single_bit bit_clear_flag)

lemma has_flag_set_flag [flag_simps]:
  "j < 32 \<Longrightarrow> k < 32 \<Longrightarrow>
   has_flag (x OR single_bit j) (single_bit k) \<longleftrightarrow> has_flag x (single_bit k) \<or> k = j"
  by (simp add: has_flag_single_bit bit_set_flag)

lemma single_bit_inj [flag_simps]:
  "j < 32 \<Longrightarrow> k < 32 \<Longrightarrow> single_bit j = single_bit k \<longleftrightarrow> j = k"
  by (metis bit_single_bit)

end
