(* ===== verification/Watch_Descriptor.thy ===== *)
theory Watch_Descriptor
  imports Prelude
begin

text \<open>
  The data model of \<open>use-watch.ts\<close> (lines 19--64): the four flag masks, the deferred
  function reference (QRL) a descriptor holds, the \<open>WatchDescriptor\<close> record, the run
  options of the registrars, and the two dynamic type tests \<open>isWatchDescriptor\<close> and
  \<open>isWatchCleanup\<close> over JavaScript values.
\<close>

unbundle bit_operations_syntax

subsection \<open>Flags\<close>

text \<open>\<open>export const WatchFlagsIsEffect = 1 << 0\<close> and the three masks after it.\<close>

definition WatchFlagsIsEffect :: flags where
  "WatchFlagsIsEffect = single_bit 0"

definition WatchFlagsIsWatch :: flags where
  "WatchFlagsIsWatch = single_bit 1"

definition WatchFlagsIsDirty :: flags where
  "WatchFlagsIsDirty = single_bit 2"

definition WatchFlagsIsCleanup :: flags where
  "WatchFlagsIsCleanup = single_bit 3"

lemmas watch_flag_defs [flag_simps] =
  WatchFlagsIsEffect_def WatchFlagsIsWatch_def WatchFlagsIsDirty_def WatchFlagsIsCleanup_def

subsection \<open>Deferred function references\<close>

text \<open>
  A \<open>QRL\<close> names a function by its chunk and its exported symbol, so that it can be
  re-resolved after serialization; \<open>$captureRef$\<close> holds the captured lexical scope and
  \<open>$refSymbol$\<close> the symbol of the QRL it stands in for. Only the fields that
  \<open>use-watch.ts\<close> reads or writes are kept.
\<close>

record qrl =
  q_chunk :: string
  q_symbol :: string
  q_capture_ref :: "wid list"
  q_ref_symbol :: "string option"

subsection \<open>The descriptor\<close>

text \<open>
  \<open>interface WatchDescriptor { qrl; el; f; i; destroy?; running? }\<close>. The optional,
  non-serialized fields are options: \<open>destroy\<close> holds the cleanup function returned by the
  last run, \<open>running\<close> the promise of the last run.
\<close>

record watch_descriptor =
  w_qrl :: qrl
  w_el :: elem
  w_f :: flags
  w_i :: nat
  w_destroy :: "cid option"
  w_running :: "pid option"

text \<open>\<open>type UseEffectRunOptions = 'visible' | 'load'\<close>; \<open>interface UseEffectOptions { run? }\<close>.\<close>

datatype run_option = Visible | Load

record use_effect_options =
  run :: "run_option option"

text \<open>\<open>opts?.run\<close>: undefined when the options object itself is absent.\<close>

definition opts_run :: "use_effect_options option \<Rightarrow> run_option option" where
  "opts_run opts = (case opts of None \<Rightarrow> None | Some o' \<Rightarrow> run o')"

subsection \<open>Dynamic type tests\<close>

text \<open>
  The tests take any JavaScript value. \<open>JsPrim\<close> stands for a primitive that is not a
  number (undefined, null, false, a non-numeric string): \<open>isObject\<close> is false for it and
  its 32-bit conversion is 0. An object is the list of its own properties.
\<close>

datatype js_value = JsPrim | JsNum int | JsObject "(string \<times> js_value) list"

definition is_object :: "js_value \<Rightarrow> bool" where
  "is_object v = (case v of JsObject _ \<Rightarrow> True | _ \<Rightarrow> False)"

definition js_has :: "js_value \<Rightarrow> string \<Rightarrow> bool" where
  "js_has v k = (case v of JsObject kvs \<Rightarrow> k \<in> fst ` set kvs | _ \<Rightarrow> False)"

definition js_get :: "js_value \<Rightarrow> string \<Rightarrow> js_value" where
  "js_get v k = (case v of JsObject kvs \<Rightarrow> (case map_of kvs k of Some x \<Rightarrow> x | None \<Rightarrow> JsPrim)
                          | _ \<Rightarrow> JsPrim)"

text \<open>ToInt32, the conversion every bitwise operator applies to its operands.\<close>

definition to_int32 :: "js_value \<Rightarrow> flags" where
  "to_int32 v = (case v of JsNum n \<Rightarrow> word_of_int n | _ \<Rightarrow> 0)"

definition isWatchDescriptor :: "js_value \<Rightarrow> bool" where
  "isWatchDescriptor obj \<longleftrightarrow> is_object obj \<and> js_has obj ''qrl'' \<and> js_has obj ''f''"

definition isWatchCleanup :: "js_value \<Rightarrow> bool" where
  "isWatchCleanup obj \<longleftrightarrow> isWatchDescriptor obj \<and> has_flag (to_int32 (js_get obj ''f'')) WatchFlagsIsCleanup"

text \<open>
  A descriptor seen as a JavaScript object: the properties the tests read, with the flag
  word as the number it holds; the optional fields are present only when set.
\<close>

definition descriptor_value :: "watch_descriptor \<Rightarrow> js_value" where
  "descriptor_value d = JsObject
     ([(''qrl'', JsObject []), (''el'', JsObject []), (''f'', JsNum (uint (w_f d))),
       (''i'', JsNum (int (w_i d)))]
      @ (case w_destroy d of None \<Rightarrow> [] | Some c \<Rightarrow> [(''destroy'', JsObject [])])
      @ (case w_running d of None \<Rightarrow> [] | Some p \<Rightarrow> [(''running'', JsObject [])]))"

subsection \<open>Well-formed flag words\<close>

text \<open>
  The flag word of a descriptor holds only the four masks, and never both kinds at once:
  a descriptor is a watch or an effect. This is the type the source's \<open>f: number\<close>
  is meant to have.
\<close>

definition known_flags :: flags where
  "known_flags = WatchFlagsIsEffect OR WatchFlagsIsWatch OR WatchFlagsIsDirty OR WatchFlagsIsCleanup"

definition flags_wf :: "flags \<Rightarrow> bool" where
  "flags_wf f \<longleftrightarrow> f AND NOT known_flags = 0
                 \<and> \<not> (has_flag f WatchFlagsIsEffect \<and> has_flag f WatchFlagsIsWatch)"

subsection \<open>Properties of the data model\<close>

lemma watch_flags_distinct:
  "WatchFlagsIsEffect \<noteq> WatchFlagsIsWatch" "WatchFlagsIsEffect \<noteq> WatchFlagsIsDirty"
  "WatchFlagsIsEffect \<noteq> WatchFlagsIsCleanup" "WatchFlagsIsWatch \<noteq> WatchFlagsIsDirty"
  "WatchFlagsIsWatch \<noteq> WatchFlagsIsCleanup" "WatchFlagsIsDirty \<noteq> WatchFlagsIsCleanup"
  by (simp_all add: watch_flag_defs single_bit_inj)

lemma to_int32_uint [simp]: "to_int32 (JsNum (uint x)) = x"
  by (simp add: to_int32_def)

lemma descriptor_isWatchDescriptor: "isWatchDescriptor (descriptor_value d)"
  by (simp add: isWatchDescriptor_def descriptor_value_def is_object_def js_has_def)

text \<open>C19 (flag word through the type test): a descriptor, read back as the JavaScript
  object it is, passes \<open>isWatchDescriptor\<close>, and \<open>isWatchCleanup\<close> on it
  recovers exactly its \<open>IsCleanup\<close> bit, for every flag word: the conversion
  \<open>ToInt32\<close> of the stored number gives the word back.\<close>

theorem isWatchCleanup_descriptor_value:
  "isWatchDescriptor (descriptor_value d) \<and> (isWatchCleanup (descriptor_value d) \<longleftrightarrow> has_flag (w_f d) WatchFlagsIsCleanup)"
proof -
  have "js_get (descriptor_value d) ''f'' = JsNum (uint (w_f d))"
    by (simp add: descriptor_value_def js_get_def)
  then show ?thesis by (simp add: isWatchCleanup_def descriptor_isWatchDescriptor)
qed

text \<open>Bit-level facts on well-formed flag words.\<close>

lemma flags_wf_bits:
  "flags_wf f \<longleftrightarrow> (\<forall>n. bit f n \<longrightarrow> n \<le> 3) \<and> \<not> (bit f 0 \<and> bit f 1)"
proof -
  have k: "bit known_flags n \<longleftrightarrow> n \<le> 3" for n
    by (auto simp add: known_flags_def watch_flag_defs bit_or_iff bit_single_bit)
  have "f AND NOT known_flags = 0 \<longleftrightarrow> (\<forall>n. bit f n \<longrightarrow> n \<le> 3)"
  proof
    assume "f AND NOT known_flags = 0"
    then have z: "\<not> bit (f AND NOT known_flags) n" for n by simp
    show "\<forall>n. bit f n \<longrightarrow> n \<le> 3"
    proof (intro allI impI)
      fix n assume b: "bit f n"
      have "n < 32" using bit_imp_le_length [OF b] by simp
      with z [of n] b k [of n] show "n \<le> 3" by (auto simp add: bit_and_iff bit_not_iff)
    qed
  next
    assume "\<forall>n. bit f n \<longrightarrow> n \<le> 3"
    then show "f AND NOT known_flags = 0" using k by (intro bit_eqI) (auto simp add: bit_and_iff bit_not_iff)
  qed
  then show ?thesis by (simp add: flags_wf_def watch_flag_defs has_flag_single_bit)
qed

lemma bit_and_not_single:
  "bit (g AND NOT (single_bit k)) n \<longleftrightarrow> bit g n \<and> n \<noteq> k"
  using bit_imp_le_length [of g n] by (auto simp add: bit_and_iff bit_not_iff bit_single_bit)

lemma flags_wf_frame:
  assumes "flags_wf f" "g AND NOT (single_bit k) = f AND NOT (single_bit k)" "k = 2 \<or> k = 3"
    "\<not> bit g k \<or> k = 2"
  shows "flags_wf g"
proof -
  have eq: "bit g n \<longleftrightarrow> bit f n" if "n \<noteq> k" for n
    using arg_cong [OF assms(2), of "\<lambda>x. bit x n"] that by (simp add: bit_and_not_single)
  have f: "\<forall>n. bit f n \<longrightarrow> n \<le> 3" "\<not> (bit f 0 \<and> bit f 1)" using assms(1) by (simp_all add: flags_wf_bits)
  have "\<forall>n. bit g n \<longrightarrow> n \<le> 3"
  proof (intro allI impI)
    fix n assume "bit g n"
    show "n \<le> 3"
    proof (cases "n = k")
      case True with assms(3) show ?thesis by auto
    next
      case False with eq f(1) \<open>bit g n\<close> show ?thesis by blast
    qed
  qed
  moreover have "\<not> (bit g 0 \<and> bit g 1)" using eq [of 0] eq [of 1] f(2) assms(3) by auto
  ultimately show ?thesis by (simp add: flags_wf_bits)
qed

lemma and_not_twice: "(x AND NOT m) AND NOT m = (x :: flags) AND NOT m"
  by (simp add: and.assoc)

lemma or_and_not: "(x OR m) AND NOT m = (x :: flags) AND NOT m"
  by (intro bit_eqI) (auto simp add: bit_and_iff bit_or_iff bit_not_iff)

lemma flags_wf_new:
  "flags_wf (WatchFlagsIsDirty OR WatchFlagsIsWatch)" "flags_wf WatchFlagsIsEffect"
  by (auto simp add: flags_wf_bits watch_flag_defs bit_or_iff bit_single_bit)

end
