(* ===== verification/Subscriptions.thy ===== *)
theory Subscriptions
  imports Watch_Descriptor
begin

text \<open>
  The reactive store, the subscription manager and the \<open>Tracker\<close>. The store and the
  manager live outside \<open>use-watch.ts\<close> (in the object-proxy and notification modules);
  they are modelled from their contract in the specification: a set of subscription
  edges \<open>(subscriber, target, property)\<close>, where property \<open>None\<close> is a whole-object
  subscription, with \<open>$addSub$\<close> inserting an edge and \<open>$clearSub$\<close> dropping every
  edge of one subscriber. The tracker itself is the closure \<open>track\<close> built inside
  \<open>runWatch\<close> (\<open>use-watch.ts\<close> lines 556--566) and is modelled from the source.
\<close>

type_synonym store = "target \<Rightarrow> pname \<rightharpoonup> int"
type_synonym subs = "(wid \<times> target \<times> pname option) set"

text \<open>The value handed to \<open>track\<close>: a store proxy, or any other value.\<close>

datatype obj_ref = Proxy target | Plain

datatype track_result = Track_value "int option" | Track_obj obj_ref

datatype error = Assertion_error string | Body_error

subsection \<open>The external collaborators\<close>

definition getProxyTarget :: "obj_ref \<Rightarrow> target option" where
  "getProxyTarget v = (case v of Proxy t \<Rightarrow> Some t | Plain \<Rightarrow> None)"

definition addSub :: "wid \<Rightarrow> target \<Rightarrow> pname option \<Rightarrow> subs \<Rightarrow> subs" where
  "addSub w t p S = insert (w, t, p) S"

definition clearSub :: "wid \<Rightarrow> subs \<Rightarrow> subs" where
  "clearSub w S = {x \<in> S. fst x \<noteq> w}"

definition is_subscribed :: "subs \<Rightarrow> wid \<Rightarrow> target \<Rightarrow> pname \<Rightarrow> bool" where
  "is_subscribed S w t p \<longleftrightarrow> (w, t, Some p) \<in> S \<or> (w, t, None) \<in> S"

definition write_store :: "store \<Rightarrow> target \<Rightarrow> pname \<Rightarrow> int \<Rightarrow> store" where
  "write_store st t p v = st(t := (st t)(p \<mapsto> v))"

text \<open>The edges of one subscriber, as the set of what it tracks.\<close>

definition subs_of :: "subs \<Rightarrow> wid \<Rightarrow> (target \<times> pname option) set" where
  "subs_of S w = {(t, p). (w, t, p) \<in> S}"

subsection \<open>The tracker\<close>

text \<open>JavaScript truthiness of the optional property name in \<open>if (prop)\<close>.\<close>

definition prop_truthy :: "pname option \<Rightarrow> bool" where
  "prop_truthy p = (case p of None \<Rightarrow> False | Some s \<Rightarrow> s \<noteq> [])"

text \<open>
  \<^verbatim>\<open>const track = (obj, prop?) => { const target = getProxyTarget(obj);
     assertDefined(target, ...); subsManager.$getLocal$(target).$addSub$(watch, prop);
     if (prop) return obj[prop]; else return obj; }\<close>
  A failed assertion is the error \<open>Inl\<close>; otherwise the result and the new edge set.
\<close>

definition track :: "wid \<Rightarrow> store \<Rightarrow> obj_ref \<Rightarrow> pname option \<Rightarrow> subs \<Rightarrow> error + track_result \<times> subs" where
  "track w st obj prop S =
     (case getProxyTarget obj of
        None \<Rightarrow> Inl (Assertion_error ''Expected a Proxy object to track'')
      | Some t \<Rightarrow>
          (let S' = addSub w t prop S
           in if prop_truthy prop then Inr (Track_value (st t (the prop)), S')
              else Inr (Track_obj obj, S')))"

subsection \<open>Properties of the manager and the tracker\<close>

lemma subs_of_clearSub [simp]:
  "subs_of (clearSub w S) w' = (if w' = w then {} else subs_of S w')"
  by (auto simp add: subs_of_def clearSub_def)

lemma subs_of_addSub [simp]:
  "subs_of (addSub w t p S) w' = (if w' = w then insert (t, p) (subs_of S w) else subs_of S w')"
  by (auto simp add: subs_of_def addSub_def)

lemma is_subscribed_subs_of:
  "is_subscribed S w t p \<longleftrightarrow> (t, Some p) \<in> subs_of S w \<or> (t, None) \<in> subs_of S w"
  by (simp add: is_subscribed_def subs_of_def)

lemma track_Proxy:
  "track w st (Proxy t) prop S =
     Inr (if prop_truthy prop then Track_value (st t (the prop)) else Track_obj (Proxy t),
          addSub w t prop S)"
  by (simp add: track_def getProxyTarget_def Let_def)

lemma track_Plain: "track w st Plain prop S = Inl (Assertion_error ''Expected a Proxy object to track'')"
  by (simp add: track_def getProxyTarget_def)

lemma track_Inr_subs:
  assumes "track w st obj prop S = Inr (v, S')"
  shows "\<exists>t. obj = Proxy t \<and> S' = addSub w t prop S"
  using assms by (cases obj) (auto simp add: track_Proxy track_Plain)

text \<open>C17 (tracker contract): tracking a property of a proxy returns the property's current
  value and adds exactly the edge for that property; tracking with no property returns the
  object and adds the whole-object edge; tracking a non-proxy fails with the assertion error
  and adds nothing; tracking the same pair twice in one run gives the same edge set as once.\<close>

theorem track_contract:
  assumes "k \<noteq> []"
  shows "track w st (Proxy t) (Some k) S = Inr (Track_value (st t k), insert (w, t, Some k) S)
       \<and> track w st (Proxy t) None S = Inr (Track_obj (Proxy t), insert (w, t, None) S)
       \<and> track w st Plain p S = Inl (Assertion_error ''Expected a Proxy object to track'')
       \<and> (\<forall>v S'. track w st (Proxy t) p S = Inr (v, S') \<longrightarrow>
              track w st (Proxy t) p S' = Inr (v, S'))"
  using assms by (auto simp add: track_Proxy track_Plain prop_truthy_def addSub_def)

theorem track_contract_witness:
  "track 0 (\<lambda>_. [''count'' \<mapsto> 3]) (Proxy 0) (Some ''count'') {} = Inr (Track_value (Some 3), {(0, 0, Some ''count'')})"
  using track_contract [of "''count''" 0 "\<lambda>_. [''count'' \<mapsto> 3]" 0 "{}"] by simp

text \<open>C18 (empty property name): because the code tests \<open>if (prop)\<close> and the empty
  string is falsy, tracking the property \<open>''''\<close> returns the whole object, yet the edge it
  records is scoped to the property \<open>''''\<close> rather than to the whole object, so a write to
  any real property of the target does not reach the subscriber through it.\<close>

theorem track_empty_name:
  "track w st (Proxy t) (Some '''') S = Inr (Track_obj (Proxy t), addSub w t (Some '''') S)
   \<and> (\<forall>q. q \<noteq> '''' \<longrightarrow>
        is_subscribed (addSub w t (Some '''') S) w t q = is_subscribed S w t q)"
  by (simp add: track_Proxy prop_truthy_def is_subscribed_def addSub_def)

theorem track_empty_name_witness:
  "track 0 (\<lambda>_. Map.empty) (Proxy 0) (Some '''') {} = Inr (Track_obj (Proxy 0), {(0, 0, Some '''')}) \<and>
   ''count'' \<noteq> '''' \<and> \<not> is_subscribed (addSub 0 0 (Some '''') {}) 0 0 ''count''"
proof -
  from track_empty_name [of 0 "\<lambda>_. Map.empty" 0 "{}"] have
    t: "track 0 (\<lambda>_. Map.empty) (Proxy 0) (Some '''') {} = Inr (Track_obj (Proxy 0), addSub 0 0 (Some '''') {})"
    and q: "is_subscribed (addSub 0 0 (Some '''') {}) 0 0 ''count'' = is_subscribed {} 0 0 ''count''"
    by simp_all
  show ?thesis using t q by (simp add: addSub_def is_subscribed_def)
qed

end
