(* ===== verification/Runner.thy ===== *)
theory Runner
  imports Subscriptions
begin

text \<open>
  The effect runner of \<open>use-watch.ts\<close>: \<open>runWatch\<close> (lines 537--578), the
  continuation it builds (lines 547--574), \<open>cleanupWatch\<close> (lines 580--590) and
  \<open>destroyWatch\<close> (lines 592--600), over an explicit heap of descriptors. A descriptor
  is a mutable object shared by the element's watch list, the scheduler and every run, so
  the state holds a store \<open>desc\<close> from descriptor references to descriptors, and each
  operation updates the descriptor in place. The promises of the runs are the table
  \<open>runs\<close>; what each promise waits for is its \<open>phase\<close>. Calls of user code (cleanup
  functions, watch bodies) leave a record in the list \<open>events\<close>, so that their order
  can be stated.
\<close>

unbundle bit_operations_syntax

subsection \<open>Watch bodies\<close>

text \<open>
  A watch body (\<open>WatchFn\<close>) is described by what it does when invoked: a script of
  tracker calls, store writes and throws executed synchronously, and how its result is
  produced: returned at once, or as a promise that later fulfils or rejects. A returned
  function (\<open>Ret_fn\<close>) becomes the descriptor's cleanup.
\<close>

datatype ret = Ret_undefined | Ret_fn cid

text \<open>
  A write \<open>store.p = e\<close> carries the expression \<open>e\<close> as a function of the store it is
  evaluated in; a body's local constants bound from tracker calls (\<open>const count =
  track(store, 'count')\<close>) are read back from the store, which holds the same value until
  the body writes that property.
\<close>

datatype action = Track obj_ref "pname option" | Write target pname "store \<Rightarrow> int" | Throw

datatype outcome = Sync ret | Async ret | Async_reject

record watch_fn =
  script :: "action list"
  result :: outcome

text \<open>
  The environment: the QRL registry resolving a chunk and a symbol to the function it
  names (the re-materialization of a deferred reference), and which cleanup functions and
  cleanup QRLs throw when called.
\<close>

record env =
  fn_of :: "string \<times> string \<Rightarrow> watch_fn"
  cleanup_throws :: "cid \<Rightarrow> bool"
  qrl_throws :: "string \<times> string \<Rightarrow> bool"

definition body_of :: "env \<Rightarrow> watch_descriptor \<Rightarrow> watch_fn" where
  "body_of env d = fn_of env (q_chunk (w_qrl d), q_symbol (w_qrl d))"

subsection \<open>Runs and the runtime state\<close>

text \<open>
  The promise of a run is pending while it waits for the previous run (\<open>Blocked q\<close>) or
  for the promise its body returned (\<open>Awaiting\<close>, with the value the body will fulfil
  with, or \<open>None\<close> when it rejects). It is fulfilled when \<open>resolve(watch)\<close> is called,
  rejected when the promise executor threw, and \<open>Hung\<close> when it stays pending with
  nothing left that could resolve it.
\<close>

datatype phase = Blocked pid | Awaiting "ret option" | Fulfilled | Rejected | Hung

record run =
  owner :: wid
  phase :: phase

datatype event =
    Cleanup_called wid cid
  | Error_logged wid
  | Subs_cleared wid
  | Body_invoked wid pid
  | Cleanup_qrl_called wid

record rstate =
  desc :: "wid \<Rightarrow> watch_descriptor"
  store :: store
  subs :: subs
  runs :: "pid \<rightharpoonup> run"
  next_pid :: pid
  events :: "event list"

datatype run_promise = Resolved_now wid | Run_promise pid

definition upd_desc :: "wid \<Rightarrow> (watch_descriptor \<Rightarrow> watch_descriptor) \<Rightarrow> rstate \<Rightarrow> rstate" where
  "upd_desc w g s = s\<lparr>desc := (desc s)(w := g (desc s w))\<rparr>"

definition set_run :: "pid \<Rightarrow> run \<Rightarrow> rstate \<Rightarrow> rstate" where
  "set_run p r s = s\<lparr>runs := (runs s)(p \<mapsto> r)\<rparr>"

definition emit :: "event list \<Rightarrow> rstate \<Rightarrow> rstate" where
  "emit es s = s\<lparr>events := events s @ es\<rparr>"

definition is_dirty :: "watch_descriptor \<Rightarrow> bool" where
  "is_dirty d \<longleftrightarrow> has_flag (w_f d) WatchFlagsIsDirty"

subsection \<open>Store writes and notification\<close>

text \<open>
  A write through a store proxy updates the target and marks dirty every descriptor
  subscribed to the property or to the whole object (\<open>notifyWatch\<close>:
  \<open>watch.f |= WatchFlagsIsDirty\<close>). The proxy and the notifier are outside
  \<open>use-watch.ts\<close>; they are modelled from the specification.
\<close>

definition notifyWatch :: "watch_descriptor \<Rightarrow> watch_descriptor" where
  "notifyWatch d = d\<lparr>w_f := w_f d OR WatchFlagsIsDirty\<rparr>"

definition write_prop :: "target \<Rightarrow> pname \<Rightarrow> int \<Rightarrow> rstate \<Rightarrow> rstate" where
  "write_prop t p v s =
     s\<lparr>store := write_store (store s) t p v,
       desc := (\<lambda>w. if is_subscribed (subs s) w t p then notifyWatch (desc s w) else desc s w)\<rparr>"

subsection \<open>cleanupWatch\<close>

text \<open>
  \<^verbatim>\<open>const destroy = watch.destroy; if (destroy) { watch.destroy = undefined;
     try { destroy(); } catch (err) { logError(err); } }\<close>
\<close>

definition cleanupWatch :: "env \<Rightarrow> wid \<Rightarrow> rstate \<Rightarrow> rstate" where
  "cleanupWatch env w s =
     (case w_destroy (desc s w) of
        None \<Rightarrow> s
      | Some c \<Rightarrow>
          emit (Cleanup_called w c # (if cleanup_throws env c then [Error_logged w] else []))
            (upd_desc w (\<lambda>d. d\<lparr>w_destroy := None\<rparr>) s))"

subsection \<open>The watch body under the tracker\<close>

text \<open>
  The synchronous part of a body: each tracker call goes through \<open>track\<close>, each write
  through \<open>write_prop\<close>; the first throw (a failed tracker assertion or an exception of
  the body) stops it, keeping the effects made before.
\<close>

fun exec_script :: "wid \<Rightarrow> action list \<Rightarrow> rstate \<Rightarrow> rstate \<times> error option" where
  "exec_script w [] s = (s, None)"
| "exec_script w (Track obj p # as) s =
     (case track w (store s) obj p (subs s) of
        Inl e \<Rightarrow> (s, Some e)
      | Inr (_, S') \<Rightarrow> exec_script w as (s\<lparr>subs := S'\<rparr>))"
| "exec_script w (Write t p e # as) s = exec_script w as (write_prop t p (e (store s)) s)"
| "exec_script w (Throw # as) s = (s, Some Body_error)"

text \<open>\<open>if (isFunction(returnValue)) watch.destroy = noSerialize(returnValue)\<close>.\<close>

definition store_return :: "wid \<Rightarrow> ret \<Rightarrow> rstate \<Rightarrow> rstate" where
  "store_return w r s =
     (case r of Ret_fn c \<Rightarrow> upd_desc w (\<lambda>d. d\<lparr>w_destroy := Some c\<rparr>) s | Ret_undefined \<Rightarrow> s)"

datatype cont_result = Cont_threw error | Cont_settled | Cont_pending "ret option"

text \<open>
  The continuation passed to \<open>then(watch.running, ...)\<close>: clean up, invoke the body
  through \<open>watch.qrl.invokeFn\<close>, whose before-hook clears the descriptor's
  subscriptions, run it with the tracker, and store a returned cleanup once the result
  is available (at once for a plain value, later for a promise).
\<close>

definition watch_cont :: "env \<Rightarrow> wid \<Rightarrow> pid \<Rightarrow> rstate \<Rightarrow> rstate \<times> cont_result" where
  "watch_cont env w p s =
     (let s1 = cleanupWatch env w s;
          fn = body_of env (desc s1 w);
          s2 = emit [Subs_cleared w, Body_invoked w p] (s1\<lparr>subs := clearSub w (subs s1)\<rparr>)
      in case exec_script w (script fn) s2 of
           (s3, Some e) \<Rightarrow> (s3, Cont_threw e)
         | (s3, None) \<Rightarrow>
             (case result fn of
                Sync r \<Rightarrow> (store_return w r s3, Cont_settled)
              | Async r \<Rightarrow> (s3, Cont_pending (Some r))
              | Async_reject \<Rightarrow> (s3, Cont_pending None)))"

text \<open>
  Where the continuation runs decides what a throw does to the run's promise: inside the
  \<open>new Promise\<close> executor (no previous run) it rejects the promise; inside a
  \<open>.then\<close> reaction it rejects only the derived promise, and the run's own promise,
  whose \<open>resolve\<close> is never called, stays pending for ever.
\<close>

fun executor_phase :: "cont_result \<Rightarrow> phase" where
  "executor_phase (Cont_threw e) = Rejected"
| "executor_phase Cont_settled = Fulfilled"
| "executor_phase (Cont_pending r) = Awaiting r"

fun reaction_phase :: "cont_result \<Rightarrow> phase" where
  "reaction_phase (Cont_threw e) = Hung"
| "reaction_phase Cont_settled = Fulfilled"
| "reaction_phase (Cont_pending r) = Awaiting r"

subsection \<open>runWatch\<close>

text \<open>
  \<^verbatim>\<open>if (!(watch.f & WatchFlagsIsDirty)) return Promise.resolve(watch);
     watch.f &= ~WatchFlagsIsDirty;
     const promise = new Promise(resolve => { then(watch.running, () => {...}) });
     watch.running = noSerialize(promise); return promise;\<close>
  \<open>then(undefined, k)\<close> calls \<open>k\<close> at once; \<open>then(promise, k)\<close> registers \<open>k\<close> as a
  reaction, which runs only after that promise is fulfilled.
\<close>

definition runWatch :: "env \<Rightarrow> wid \<Rightarrow> rstate \<Rightarrow> rstate \<times> run_promise" where
  "runWatch env w s =
     (if \<not> has_flag (w_f (desc s w)) WatchFlagsIsDirty then (s, Resolved_now w)
      else
        (let s1 = upd_desc w (\<lambda>d. d\<lparr>w_f := w_f d AND NOT WatchFlagsIsDirty\<rparr>) s;
             p = next_pid s1;
             s2 = s1\<lparr>next_pid := Suc p\<rparr>;
             s3 = (case w_running (desc s2 w) of
                     None \<Rightarrow> (case watch_cont env w p s2 of
                                (s', c) \<Rightarrow> set_run p \<lparr>owner = w, phase = executor_phase c\<rparr> s')
                   | Some q \<Rightarrow> set_run p \<lparr>owner = w, phase = Blocked q\<rparr> s2)
         in (upd_desc w (\<lambda>d. d\<lparr>w_running := Some p\<rparr>) s3, Run_promise p)))"

text \<open>The reaction of a blocked run, once the promise it waits for is fulfilled.\<close>

definition fire_run :: "env \<Rightarrow> pid \<Rightarrow> rstate \<Rightarrow> rstate" where
  "fire_run env p s =
     (case runs s p of
        None \<Rightarrow> s
      | Some r \<Rightarrow> (case watch_cont env (owner r) p s of
                     (s', c) \<Rightarrow> set_run p (r\<lparr>phase := reaction_phase c\<rparr>) s'))"

text \<open>The reaction to the promise a body returned: fulfilment stores the cleanup and
  resolves the run; rejection leaves the run's promise pending for ever.\<close>

definition settle_run :: "pid \<Rightarrow> rstate \<Rightarrow> rstate" where
  "settle_run p s =
     (case runs s p of
        None \<Rightarrow> s
      | Some r \<Rightarrow> (case phase r of
                     Awaiting (Some v) \<Rightarrow> set_run p (r\<lparr>phase := Fulfilled\<rparr>) (store_return (owner r) v s)
                   | Awaiting None \<Rightarrow> set_run p (r\<lparr>phase := Hung\<rparr>) s
                   | _ \<Rightarrow> s))"

subsection \<open>destroyWatch\<close>

text \<open>
  \<^verbatim>\<open>if (watch.f & WatchFlagsIsCleanup) { watch.f &= ~WatchFlagsIsCleanup;
     const cleanup = watch.qrl.invokeFn(watch.el); cleanup(); } else cleanupWatch(watch);\<close>
  The call of the cleanup QRL is not guarded by \<open>try\<close>: when it throws, the error
  reaches the caller.
\<close>

definition destroyWatch :: "env \<Rightarrow> wid \<Rightarrow> rstate \<Rightarrow> rstate \<times> error option" where
  "destroyWatch env w s =
     (if has_flag (w_f (desc s w)) WatchFlagsIsCleanup
      then (emit [Cleanup_qrl_called w]
              (upd_desc w (\<lambda>d. d\<lparr>w_f := w_f d AND NOT WatchFlagsIsCleanup\<rparr>) s),
            if qrl_throws env (q_chunk (w_qrl (desc s w)), q_symbol (w_qrl (desc s w)))
            then Some Body_error else None)
      else (cleanupWatch env w s, None))"

subsection \<open>Reference descriptions used by the theorems\<close>

text \<open>The edges a body's script creates: its tracker calls up to the first throw.\<close>

fun script_tracks :: "action list \<Rightarrow> (target \<times> pname option) set" where
  "script_tracks [] = {}"
| "script_tracks (Track (Proxy t) p # as) = insert (t, p) (script_tracks as)"
| "script_tracks (Track Plain p # as) = {}"
| "script_tracks (Write t p e # as) = script_tracks as"
| "script_tracks (Throw # as) = {}"

text \<open>The calls the cleanup step makes for a descriptor: its stored cleanup, then the log
  of its error if it throws.\<close>

definition cleanup_events :: "env \<Rightarrow> wid \<Rightarrow> watch_descriptor \<Rightarrow> event list" where
  "cleanup_events env w d =
     (case w_destroy d of None \<Rightarrow> []
      | Some c \<Rightarrow> Cleanup_called w c # (if cleanup_throws env c then [Error_logged w] else []))"

subsection \<open>A concrete component\<close>

text \<open>
  A test component after the documented example of \<open>useWatch$\<close>: a body that tracks
  \<open>store.count\<close>, writes \<open>store.doubleCount = 2 * count\<close> and returns a cleanup
  function (reference 1). Target 0 is the store, created with \<open>count\<close> and
  \<open>doubleCount\<close> at 0; descriptor 0 is the watch.
\<close>

definition demo_qrl :: qrl where
  "demo_qrl = \<lparr>q_chunk = ''cmp.js'', q_symbol = ''cmp_useWatch'', q_capture_ref = [],
               q_ref_symbol = None\<rparr>"

definition demo_body :: watch_fn where
  "demo_body = \<lparr>script = [Track (Proxy 0) (Some ''count''), Write 0 ''doubleCount'' (\<lambda>st. 2 * the (st 0 ''count''))],
                result = Sync (Ret_fn 1)\<rparr>"

definition demo_env :: env where
  "demo_env = \<lparr>fn_of = (\<lambda>_. demo_body), cleanup_throws = (\<lambda>_. False), qrl_throws = (\<lambda>_. False)\<rparr>"

definition demo_desc :: watch_descriptor where
  "demo_desc = \<lparr>w_qrl = demo_qrl, w_el = 0, w_f = WatchFlagsIsDirty OR WatchFlagsIsWatch, w_i = 0,
                w_destroy = None, w_running = None\<rparr>"

definition demo_state :: rstate where
  "demo_state = \<lparr>desc = (\<lambda>_. demo_desc), store = (\<lambda>_. Map.empty)(0 := [''count'' \<mapsto> 0, ''doubleCount'' \<mapsto> 0]), subs = {}, runs = Map.empty,
                 next_pid = 0, events = []\<rparr>"

text \<open>A body whose first tracker call gets a plain object, followed by a write.\<close>

definition demo_plain_env :: env where
  "demo_plain_env = demo_env\<lparr>fn_of := \<lambda>_. \<lparr>script = [Track Plain None, Write 0 ''count'' (\<lambda>_. 5)],
                                              result = Sync Ret_undefined\<rparr>\<rparr>"

text \<open>Every descriptor of the heap has a well-formed flag word; an update changes no bit
  but the dirty bit.\<close>

definition desc_wf :: "rstate \<Rightarrow> bool" where
  "desc_wf s \<longleftrightarrow> (\<forall>w. flags_wf (w_f (desc s w)))"

abbreviation dirty_frame :: "rstate \<Rightarrow> rstate \<Rightarrow> bool" where
  "dirty_frame s s' \<equiv> (\<forall>w. w_f (desc s' w) AND NOT WatchFlagsIsDirty = w_f (desc s w) AND NOT WatchFlagsIsDirty)"

lemmas demo_defs = demo_qrl_def demo_body_def demo_env_def demo_desc_def demo_state_def

subsection \<open>Frame lemmas\<close>

text \<open>What each state update leaves alone; these carry every later proof.\<close>

lemma upd_desc_simps [simp, frame_simps]:
  "desc (upd_desc w g s) w' = (if w' = w then g (desc s w) else desc s w')"
  "runs (upd_desc w g s) = runs s" "next_pid (upd_desc w g s) = next_pid s"
  "events (upd_desc w g s) = events s" "subs (upd_desc w g s) = subs s"
  "store (upd_desc w g s) = store s"
  by (simp_all add: upd_desc_def)

lemma set_run_simps [simp, frame_simps]:
  "desc (set_run p r s) = desc s" "runs (set_run p r s) = (runs s)(p \<mapsto> r)"
  "next_pid (set_run p r s) = next_pid s" "events (set_run p r s) = events s"
  "subs (set_run p r s) = subs s" "store (set_run p r s) = store s"
  by (simp_all add: set_run_def)

lemma emit_simps [simp, frame_simps]:
  "desc (emit es s) = desc s" "runs (emit es s) = runs s" "next_pid (emit es s) = next_pid s"
  "events (emit es s) = events s @ es" "subs (emit es s) = subs s" "store (emit es s) = store s"
  by (simp_all add: emit_def)

lemma write_prop_simps [simp, frame_simps]:
  "runs (write_prop t p v s) = runs s" "next_pid (write_prop t p v s) = next_pid s"
  "events (write_prop t p v s) = events s" "subs (write_prop t p v s) = subs s"
  by (simp_all add: write_prop_def)

lemma write_prop_store: "store (write_prop t p v s) = write_store (store s) t p v"
  by (simp add: write_prop_def)

lemma write_prop_desc:
  "desc (write_prop t p v s) w =
     (if is_subscribed (subs s) w t p then notifyWatch (desc s w) else desc s w)"
  by (simp add: write_prop_def)

lemma notifyWatch_simps [simp]:
  "w_qrl (notifyWatch d) = w_qrl d" "w_el (notifyWatch d) = w_el d" "w_i (notifyWatch d) = w_i d"
  "w_destroy (notifyWatch d) = w_destroy d" "w_running (notifyWatch d) = w_running d"
  by (simp_all add: notifyWatch_def)

lemma write_prop_desc_fields [simp, frame_simps]:
  "w_running (desc (write_prop t p v s) w) = w_running (desc s w)"
  "w_destroy (desc (write_prop t p v s) w) = w_destroy (desc s w)"
  "w_qrl (desc (write_prop t p v s) w) = w_qrl (desc s w)"
  by (simp_all add: write_prop_def notifyWatch_def)

text \<open>A write can only set the dirty bit of a descriptor; every other bit stays.\<close>

lemma write_prop_flags_other [simp]:
  "w_f (desc (write_prop t p v s) w) AND NOT WatchFlagsIsDirty = w_f (desc s w) AND NOT WatchFlagsIsDirty"
  by (auto simp add: write_prop_def notifyWatch_def intro!: bit_eqI simp: bit_and_iff bit_or_iff bit_not_iff)

lemma write_prop_dirty_mono [simp]:
  "is_dirty (desc s w) \<Longrightarrow> is_dirty (desc (write_prop t p v s) w)"
  by (simp add: write_prop_desc is_dirty_def notifyWatch_def flag_simps)

lemma is_dirty_notifyWatch [simp]: "is_dirty (notifyWatch d)"
  by (simp add: is_dirty_def notifyWatch_def flag_simps)

lemma cleanupWatch_simps [simp, frame_simps]:
  "runs (cleanupWatch env w s) = runs s" "next_pid (cleanupWatch env w s) = next_pid s"
  "subs (cleanupWatch env w s) = subs s" "store (cleanupWatch env w s) = store s"
  "w_f (desc (cleanupWatch env w s) w') = w_f (desc s w')"
  "w_qrl (desc (cleanupWatch env w s) w') = w_qrl (desc s w')"
  "w_running (desc (cleanupWatch env w s) w') = w_running (desc s w')"
  "w_destroy (desc (cleanupWatch env w s) w') = (if w' = w then None else w_destroy (desc s w'))"
  by (auto simp add: cleanupWatch_def split: option.split)

lemma store_return_simps [simp, frame_simps]:
  "runs (store_return w r s) = runs s" "next_pid (store_return w r s) = next_pid s"
  "events (store_return w r s) = events s" "subs (store_return w r s) = subs s"
  "w_f (desc (store_return w r s) w') = w_f (desc s w')"
  "w_running (desc (store_return w r s) w') = w_running (desc s w')"
  "w_qrl (desc (store_return w r s) w') = w_qrl (desc s w')"
  by (simp_all add: store_return_def split: ret.split)

text \<open>The synchronous part of a body changes neither the runs nor the log, keeps every
  descriptor's references, and can only set dirty bits.\<close>

lemma exec_script_frame:
  assumes "exec_script w as s = (s', r)"
  shows "runs s' = runs s \<and> next_pid s' = next_pid s \<and> events s' = events s
         \<and> (\<forall>w'. w_running (desc s' w') = w_running (desc s w')
               \<and> w_destroy (desc s' w') = w_destroy (desc s w')
               \<and> w_qrl (desc s' w') = w_qrl (desc s w')
               \<and> (is_dirty (desc s w') \<longrightarrow> is_dirty (desc s' w'))
               \<and> w_f (desc s' w') AND NOT WatchFlagsIsDirty = w_f (desc s w') AND NOT WatchFlagsIsDirty)"
  using assms
proof (induction w as s rule: exec_script.induct)
  case (3 w t p v as s)
  then show ?case by auto
qed (auto split: sum.splits prod.splits)

lemma exec_script_subs:
  "subs_of (subs (fst (exec_script w as s))) w' =
     (if w' = w then subs_of (subs s) w \<union> script_tracks as else subs_of (subs s) w')"
proof (induction w as s rule: exec_script.induct)
  case (2 w obj p as s)
  then show ?case by (cases obj) (auto simp add: track_Proxy track_Plain)
qed simp_all

lemma cleanupWatch_events: "events (cleanupWatch env w s) = events s @ cleanup_events env w (desc s w)"
  by (simp add: cleanupWatch_def cleanup_events_def split: option.split)

subsection \<open>Functional behaviour of the runner\<close>

text \<open>C1: a descriptor that is not dirty makes \<open>runWatch\<close> a no-op.\<close>

theorem runWatch_not_dirty:
  assumes "\<not> is_dirty (desc s w)"
  shows "runWatch env w s = (s, Resolved_now w)"
  using assms by (simp add: runWatch_def is_dirty_def)

lemma body_of_cleanupWatch [simp]:
  "body_of env (desc (cleanupWatch env w s) w') = body_of env (desc s w')"
  by (simp add: body_of_def)

lemma watch_cont_unfold:
  "watch_cont env w p s =
     (case exec_script w (script (body_of env (desc s w)))
             (emit [Subs_cleared w, Body_invoked w p]
                ((cleanupWatch env w s)\<lparr>subs := clearSub w (subs s)\<rparr>)) of
        (s3, Some e) \<Rightarrow> (s3, Cont_threw e)
      | (s3, None) \<Rightarrow>
          (case result (body_of env (desc s w)) of
             Sync r \<Rightarrow> (store_return w r s3, Cont_settled)
           | Async r \<Rightarrow> (s3, Cont_pending (Some r))
           | Async_reject \<Rightarrow> (s3, Cont_pending None)))"
  by (simp add: watch_cont_def Let_def)

lemma watch_cont_frame:
  assumes "watch_cont env w p s = (s', c)"
  shows "runs s' = runs s \<and> next_pid s' = next_pid s
         \<and> (\<forall>w'. w_running (desc s' w') = w_running (desc s w')
               \<and> w_qrl (desc s' w') = w_qrl (desc s w')
               \<and> (is_dirty (desc s w') \<longrightarrow> is_dirty (desc s' w')))"
  using assms exec_script_frame
  by (auto simp add: watch_cont_unfold is_dirty_def split: prod.splits option.splits outcome.splits)

lemma watch_cont_log:
  "events (fst (watch_cont env w p s)) = events (cleanupWatch env w s) @ [Subs_cleared w, Body_invoked w p]"
proof -
  obtain s3 r where ex: "exec_script w (script (body_of env (desc s w)))
      (emit [Subs_cleared w, Body_invoked w p] ((cleanupWatch env w s)\<lparr>subs := clearSub w (subs s)\<rparr>))
      = (s3, r)" by fastforce
  then have "events s3 = events (cleanupWatch env w s) @ [Subs_cleared w, Body_invoked w p]"
    using exec_script_frame [OF ex] by (simp add: emit_def)
  with ex show ?thesis
    by (simp add: watch_cont_unfold split: option.split outcome.split)
qed

text \<open>C2: one run of the continuation calls the stored cleanup first, then clears the
  subscriptions, then invokes the body; the body itself calls nothing that is logged.\<close>

theorem watch_cont_order:
  "events (fst (watch_cont env w p s)) =
     events s @ cleanup_events env w (desc s w) @ [Subs_cleared w, Body_invoked w p]"
  by (simp add: watch_cont_log cleanupWatch_events)

text \<open>The subscriptions after the continuation are those the body's script leaves.\<close>

lemma watch_cont_subs_exec:
  "subs (fst (watch_cont env w p s)) =
     subs (fst (exec_script w (script (body_of env (desc s w)))
       (emit [Subs_cleared w, Body_invoked w p] ((cleanupWatch env w s)\<lparr>subs := clearSub w (subs s)\<rparr>))))"
  by (simp add: watch_cont_unfold split: prod.split option.split outcome.split)

text \<open>C3: after a run, the subscriptions of the descriptor are exactly what this run
  tracked; those of every other descriptor are untouched.\<close>

theorem watch_cont_subs:
  "subs_of (subs (fst (watch_cont env w p s))) w' =
     (if w' = w then script_tracks (script (body_of env (desc s w))) else subs_of (subs s) w')"
  by (simp add: watch_cont_subs_exec exec_script_subs)

theorem runWatch_not_dirty_witness:
  "\<not> is_dirty (desc (demo_state\<lparr>desc := \<lambda>_. demo_desc\<lparr>w_f := WatchFlagsIsWatch\<rparr>\<rparr>) 0) \<and>
   runWatch demo_env 0 (demo_state\<lparr>desc := \<lambda>_. demo_desc\<lparr>w_f := WatchFlagsIsWatch\<rparr>\<rparr>) =
     (demo_state\<lparr>desc := \<lambda>_. demo_desc\<lparr>w_f := WatchFlagsIsWatch\<rparr>\<rparr>, Resolved_now 0)"
proof -
  have h: "\<not> is_dirty (desc (demo_state\<lparr>desc := \<lambda>_. demo_desc\<lparr>w_f := WatchFlagsIsWatch\<rparr>\<rparr>) 0)"
    by (simp add: is_dirty_def flag_simps)
  show ?thesis using h runWatch_not_dirty [OF h] by simp
qed


lemma watch_cont_invokes: "Body_invoked w p \<in> set (events (fst (watch_cont env w p s)))"
proof -
  obtain s3 r where ex: "exec_script w (script (body_of env (desc s w)))
      (emit [Subs_cleared w, Body_invoked w p] ((cleanupWatch env w s)\<lparr>subs := clearSub w (subs s)\<rparr>))
      = (s3, r)" by fastforce
  then have "Body_invoked w p \<in> set (events s3)" using exec_script_frame [OF ex] by simp
  with ex show ?thesis by (simp add: watch_cont_unfold split: option.split outcome.split)
qed

text \<open>A dirty descriptor with no run yet has its body invoked by \<open>runWatch\<close> itself,
  under the promise id it allocates.\<close>

lemma runWatch_first_invokes:
  assumes "is_dirty (desc s w)" "w_running (desc s w) = None"
  shows "Body_invoked w (next_pid s) \<in> set (events (fst (runWatch env w s)))"
proof -
  let ?s2 = "(upd_desc w (\<lambda>d. d\<lparr>w_f := w_f d AND NOT WatchFlagsIsDirty\<rparr>) s)\<lparr>next_pid := Suc (next_pid s)\<rparr>"
  obtain s' c where wc: "watch_cont env w (next_pid s) ?s2 = (s', c)" by fastforce
  have "Body_invoked w (next_pid s) \<in> set (events s')"
    using watch_cont_invokes [of w "next_pid s" env ?s2] wc by simp
  with assms wc show ?thesis by (simp add: runWatch_def is_dirty_def Let_def)
qed

text \<open>After a first run the descriptor is subscribed to exactly what its body tracked.\<close>

lemma runWatch_first_subs:
  assumes "is_dirty (desc s w)" "w_running (desc s w) = None"
  shows "subs_of (subs (fst (runWatch env w s))) w = script_tracks (script (body_of env (desc s w)))"
proof -
  let ?s2 = "(upd_desc w (\<lambda>d. d\<lparr>w_f := w_f d AND NOT WatchFlagsIsDirty\<rparr>) s)\<lparr>next_pid := Suc (next_pid s)\<rparr>"
  obtain s' c where wc: "watch_cont env w (next_pid s) ?s2 = (s', c)" by fastforce
  have "subs_of (subs s') w = script_tracks (script (body_of env (desc ?s2 w)))"
    using watch_cont_subs_exec [of env w "next_pid s" ?s2] wc by (simp add: exec_script_subs)
  moreover have "body_of env (desc ?s2 w) = body_of env (desc s w)" by (simp add: body_of_def)
  ultimately show ?thesis using assms wc by (simp add: runWatch_def is_dirty_def Let_def)
qed

text \<open>A dirty descriptor with a run already: \<open>runWatch\<close> only chains a new promise.\<close>

lemma runWatch_chained:
  assumes "is_dirty (desc s w)" "w_running (desc s w) = Some q"
  shows "runWatch env w s =
     (s\<lparr>desc := (desc s)(w := (desc s w)\<lparr>w_f := w_f (desc s w) AND NOT WatchFlagsIsDirty,
                      w_running := Some (next_pid s)\<rparr>),
        runs := (runs s)(next_pid s \<mapsto> \<lparr>owner = w, phase = Blocked q\<rparr>),
        next_pid := Suc (next_pid s)\<rparr>,
      Run_promise (next_pid s))"
  using assms by (simp add: runWatch_def is_dirty_def Let_def upd_desc_def set_run_def fun_eq_iff)

text \<open>C14 (synchronous first run, deferred later runs): when the descriptor has no run
  yet, \<open>runWatch\<close> invokes the body before it returns; when it has one, \<open>runWatch\<close>
  invokes nothing and only clears the dirty bit, allocates the new promise blocked on the
  previous one, and records it as \<open>running\<close>.\<close>

theorem runWatch_first_and_later:
  assumes "is_dirty (desc s w)"
  shows "(w_running (desc s w) = None \<longrightarrow>
            Body_invoked w (next_pid s) \<in> set (events (fst (runWatch env w s))))
       \<and> (w_running (desc s w) = Some q \<longrightarrow>
            runWatch env w s =
              (s\<lparr>desc := (desc s)(w := (desc s w)\<lparr>w_f := w_f (desc s w) AND NOT WatchFlagsIsDirty,
                                                 w_running := Some (next_pid s)\<rparr>),
                 runs := (runs s)(next_pid s \<mapsto> \<lparr>owner = w, phase = Blocked q\<rparr>),
                 next_pid := Suc (next_pid s)\<rparr>,
               Run_promise (next_pid s)))"
proof (intro conjI impI)
  assume "w_running (desc s w) = None"
  with assms show "Body_invoked w (next_pid s) \<in> set (events (fst (runWatch env w s)))"
    by (rule runWatch_first_invokes)
next
  assume "w_running (desc s w) = Some q"
  with assms show "runWatch env w s =
              (s\<lparr>desc := (desc s)(w := (desc s w)\<lparr>w_f := w_f (desc s w) AND NOT WatchFlagsIsDirty,
                                                 w_running := Some (next_pid s)\<rparr>),
                 runs := (runs s)(next_pid s \<mapsto> \<lparr>owner = w, phase = Blocked q\<rparr>),
                 next_pid := Suc (next_pid s)\<rparr>,
               Run_promise (next_pid s))"
    by (rule runWatch_chained)
qed

theorem runWatch_first_and_later_witness:
  "is_dirty (desc demo_state 0) \<and>
   Body_invoked 0 0 \<in> set (events (fst (runWatch demo_env 0 demo_state)))"
proof -
  have d: "is_dirty (desc demo_state 0)"
    by (simp add: is_dirty_def demo_state_def demo_desc_def flag_simps)
  have n: "w_running (desc demo_state 0) = None" by (simp add: demo_state_def demo_desc_def)
  from runWatch_first_and_later [OF d, where env = demo_env and q = 0] n d show ?thesis
    by (simp add: demo_state_def)
qed

text \<open>C15 (cleanup exactly once on destroy): destroying a descriptor without the cleanup
  flag calls its stored cleanup once (logging an error it throws, never raising it) and
  forgets it, so destroying it again calls nothing.\<close>

theorem destroyWatch_cleanup_once:
  assumes "\<not> has_flag (w_f (desc s w)) WatchFlagsIsCleanup" "w_destroy (desc s w) = Some c"
  shows "events (fst (destroyWatch env w s)) =
           events s @ Cleanup_called w c # (if cleanup_throws env c then [Error_logged w] else [])
       \<and> w_destroy (desc (fst (destroyWatch env w s)) w) = None
       \<and> snd (destroyWatch env w s) = None
       \<and> destroyWatch env w (fst (destroyWatch env w s)) = (fst (destroyWatch env w s), None)"
  using assms by (simp add: destroyWatch_def cleanupWatch_def)

theorem destroyWatch_cleanup_once_witness:
  "\<not> has_flag (w_f (desc (fst (runWatch demo_env 0 demo_state)) 0)) WatchFlagsIsCleanup \<and>
   w_destroy (desc (fst (runWatch demo_env 0 demo_state)) 0) = Some 1 \<and>
   snd (destroyWatch demo_env 0 (fst (runWatch demo_env 0 demo_state))) = None"
proof -
  let ?s = "fst (runWatch demo_env 0 demo_state)"
  have f: "\<not> has_flag (w_f (desc ?s 0)) WatchFlagsIsCleanup"
    and c: "w_destroy (desc ?s 0) = Some 1"
    by (simp_all add: runWatch_def watch_cont_def cleanupWatch_def emit_def upd_desc_def set_run_def
        body_of_def track_def getProxyTarget_def write_prop_def store_return_def is_subscribed_def
        addSub_def clearSub_def prop_truthy_def Let_def has_flag_def watch_flag_defs single_bit_def
        notifyWatch_def demo_defs)
  from destroyWatch_cleanup_once [OF f c, where env = demo_env] show ?thesis using f c by simp
qed

text \<open>C16 (cleanup-callback descriptors): destroying a descriptor flagged
  \<open>IsCleanup\<close> clears that flag alone, calls its QRL as a bare callback instead of the
  stored cleanup, and lets an exception of that callback reach the caller.\<close>

theorem destroyWatch_cleanup_flag:
  assumes "has_flag (w_f (desc s w)) WatchFlagsIsCleanup"
  shows "events (fst (destroyWatch env w s)) = events s @ [Cleanup_qrl_called w]
       \<and> \<not> has_flag (w_f (desc (fst (destroyWatch env w s)) w)) WatchFlagsIsCleanup
       \<and> (\<forall>m \<in> {WatchFlagsIsEffect, WatchFlagsIsWatch, WatchFlagsIsDirty}.
            has_flag (w_f (desc (fst (destroyWatch env w s)) w)) m = has_flag (w_f (desc s w)) m)
       \<and> w_destroy (desc (fst (destroyWatch env w s)) w) = w_destroy (desc s w)
       \<and> (snd (destroyWatch env w s) = Some Body_error \<longleftrightarrow> qrl_throws env (q_chunk (w_qrl (desc s w)), q_symbol (w_qrl (desc s w))))"
  using assms by (simp add: destroyWatch_def flag_simps)

theorem destroyWatch_cleanup_flag_witness:
  "has_flag (w_f (desc (demo_state\<lparr>desc := \<lambda>_. demo_desc\<lparr>w_f := WatchFlagsIsCleanup\<rparr>\<rparr>) 0)) WatchFlagsIsCleanup \<and>
   events (fst (destroyWatch demo_env 0 (demo_state\<lparr>desc := \<lambda>_. demo_desc\<lparr>w_f := WatchFlagsIsCleanup\<rparr>\<rparr>)))
     = [Cleanup_qrl_called 0]"
proof -
  let ?s = "demo_state\<lparr>desc := \<lambda>_. demo_desc\<lparr>w_f := WatchFlagsIsCleanup\<rparr>\<rparr>"
  have h: "has_flag (w_f (desc ?s 0)) WatchFlagsIsCleanup" by (simp add: flag_simps)
  from destroyWatch_cleanup_flag [OF h, where env = demo_env] show ?thesis using h by (simp add: demo_state_def)
qed

text \<open>C24 (tracker assertion on the first run): when the body's first tracker call gets an
  object that is not a proxy, the assertion error stops the body there: the run's promise
  is rejected, nothing after the call is executed (the store is unchanged), the
  descriptor is left with no subscription, and it is no longer dirty.\<close>

theorem runWatch_track_error:
  assumes "is_dirty (desc s w)" "w_running (desc s w) = None"
    "script (body_of env (desc s w)) = Track Plain p # as"
  shows "runs (fst (runWatch env w s)) (next_pid s) = Some \<lparr>owner = w, phase = Rejected\<rparr>
     \<and> store (fst (runWatch env w s)) = store s
     \<and> subs_of (subs (fst (runWatch env w s))) w = {}
     \<and> \<not> is_dirty (desc (fst (runWatch env w s)) w)"
  using assms by (simp add: runWatch_def watch_cont_unfold is_dirty_def track_Plain body_of_def Let_def flag_simps)

theorem runWatch_track_error_witness:
  "is_dirty (desc demo_state 0) \<and> w_running (desc demo_state 0) = None \<and>
   runs (fst (runWatch demo_plain_env 0 demo_state)) 0 = Some \<lparr>owner = 0, phase = Rejected\<rparr>"
proof -
  have d: "is_dirty (desc demo_state 0)" by (simp add: is_dirty_def demo_defs flag_simps)
  have n: "w_running (desc demo_state 0) = None" by (simp add: demo_defs)
  have sc: "script (body_of demo_plain_env (desc demo_state 0)) = Track Plain None # [Write 0 ''count'' (\<lambda>_. 5)]"
    by (simp add: body_of_def demo_plain_env_def demo_env_def)
  from runWatch_track_error [OF d n sc] d n show ?thesis by (simp add: demo_state_def)
qed

text \<open>The runner changes flag words only in the dirty bit; \<open>destroyWatch\<close> only in the
  cleanup bit; both keep them well formed.\<close>

lemma watch_cont_flags: "watch_cont env w p s = (s', c) \<Longrightarrow> dirty_frame s s'"
  using exec_script_frame
  by (auto simp add: watch_cont_unfold split: prod.splits option.splits outcome.splits)

lemma runWatch_flags: "dirty_frame s (fst (runWatch env w s))"
proof -
  let ?s1 = "upd_desc w (\<lambda>d. d\<lparr>w_f := w_f d AND NOT WatchFlagsIsDirty\<rparr>) s"
  have f1: "dirty_frame s (?s1\<lparr>next_pid := Suc (next_pid s)\<rparr>)" by (simp add: and_not_twice)
  show ?thesis
  proof (cases "w_running (desc s w)")
    case None
    obtain s' c where wc: "watch_cont env w (next_pid s) (?s1\<lparr>next_pid := Suc (next_pid s)\<rparr>) = (s', c)" by fastforce
    from watch_cont_flags [OF wc] f1 None wc show ?thesis by (simp add: runWatch_def Let_def)
  next
    case (Some q)
    with f1 show ?thesis by (simp add: runWatch_def Let_def)
  qed
qed

lemma destroyWatch_flags_wf:
  assumes "desc_wf s" shows "desc_wf (fst (destroyWatch env w s))"
proof (cases "has_flag (w_f (desc s w)) WatchFlagsIsCleanup")
  case True
  have f: "flags_wf (w_f (desc s w))" using assms by (simp add: desc_wf_def)
  have "flags_wf (w_f (desc s w) AND NOT WatchFlagsIsCleanup)"
    by (rule flags_wf_frame [OF f, where k = 3])
       (simp_all add: watch_flag_defs and_not_twice bit_and_not_single)
  moreover have "desc (fst (destroyWatch env w s)) =
      (desc s)(w := (desc s w)\<lparr>w_f := w_f (desc s w) AND NOT WatchFlagsIsCleanup\<rparr>)"
    using True by (simp add: destroyWatch_def upd_desc_def)
  ultimately show ?thesis using assms by (simp add: desc_wf_def)
next
  case False
  with assms show ?thesis by (simp add: destroyWatch_def desc_wf_def)
qed

lemma dirty_frame_wf:
  assumes "desc_wf s" "dirty_frame s s'" shows "desc_wf s'"
  unfolding desc_wf_def
proof
  fix w
  have f: "flags_wf (w_f (desc s w))" using assms(1) by (simp add: desc_wf_def)
  have e: "w_f (desc s' w) AND NOT (single_bit 2) = w_f (desc s w) AND NOT (single_bit 2)"
    using assms(2) by (simp add: WatchFlagsIsDirty_def)
  show "flags_wf (w_f (desc s' w))" by (rule flags_wf_frame [OF f e]) simp_all
qed

end
