(* ===== verification/Scheduler.thy ===== *)
theory Scheduler
  imports Runner
begin

text \<open>
  The cooperative runtime around the runner. The surrounding scheduler may call
  \<open>runWatch\<close> on any descriptor at any time (\<open>Sched\<close>); a pending run whose previous
  run is fulfilled may take its reaction (\<open>Fire\<close>); a body's returned promise may settle
  (\<open>Settle\<close>); the application may write the store (\<open>Mutate\<close>) and the owning element
  may destroy a descriptor (\<open>Destroy\<close>). The step relation allows these in any order, so
  it over-approximates the microtask queue: what holds in every reachable state here
  holds for every order the JavaScript event loop picks. The main result is the
  invariant \<open>runs_inv\<close>, from which single-flight execution and the serial order of the
  runs of one descriptor follow. The executable interpreter \<open>exec_events\<close> runs
  concrete traces; each of its events is a step of the relation.
\<close>

datatype ev = Sched wid | Fire pid | Settle pid | Mutate target pname int | Destroy wid

definition fire_enabled :: "rstate \<Rightarrow> pid \<Rightarrow> bool" where
  "fire_enabled s p =
     (case runs s p of
        Some r \<Rightarrow> (case phase r of
                     Blocked q \<Rightarrow> (case runs s q of Some rq \<Rightarrow> phase rq = Fulfilled | None \<Rightarrow> False)
                   | _ \<Rightarrow> False)
      | None \<Rightarrow> False)"

definition settle_enabled :: "rstate \<Rightarrow> pid \<Rightarrow> bool" where
  "settle_enabled s p =
     (case runs s p of Some r \<Rightarrow> (case phase r of Awaiting v \<Rightarrow> True | _ \<Rightarrow> False) | None \<Rightarrow> False)"

fun exec_event :: "env \<Rightarrow> ev \<Rightarrow> rstate \<Rightarrow> rstate option" where
  "exec_event env (Sched w) s = Some (fst (runWatch env w s))"
| "exec_event env (Fire p) s = (if fire_enabled s p then Some (fire_run env p s) else None)"
| "exec_event env (Settle p) s = (if settle_enabled s p then Some (settle_run p s) else None)"
| "exec_event env (Mutate t k v) s = Some (write_prop t k v s)"
| "exec_event env (Destroy w) s = Some (fst (destroyWatch env w s))"

fun exec_events :: "env \<Rightarrow> ev list \<Rightarrow> rstate \<Rightarrow> rstate option" where
  "exec_events env [] s = Some s"
| "exec_events env (e # es) s =
     (case exec_event env e s of None \<Rightarrow> None | Some s' \<Rightarrow> exec_events env es s')"

inductive step :: "env \<Rightarrow> rstate \<Rightarrow> ev \<Rightarrow> rstate \<Rightarrow> bool" for env where
  sched: "step env s (Sched w) (fst (runWatch env w s))"
| fire: "runs s p = Some r \<Longrightarrow> phase r = Blocked q \<Longrightarrow> runs s q = Some rq \<Longrightarrow>
         phase rq = Fulfilled \<Longrightarrow> step env s (Fire p) (fire_run env p s)"
| settle: "runs s p = Some r \<Longrightarrow> phase r = Awaiting v \<Longrightarrow> step env s (Settle p) (settle_run p s)"
| mutate: "step env s (Mutate t k v) (write_prop t k v s)"
| destroy: "step env s (Destroy w) (fst (destroyWatch env w s))"

text \<open>A state before any run: no promise exists and no descriptor has one.\<close>

definition initial :: "rstate \<Rightarrow> bool" where
  "initial s \<longleftrightarrow> runs s = Map.empty \<and> (\<forall>w. w_running (desc s w) = None)"

inductive reach :: "env \<Rightarrow> rstate \<Rightarrow> bool" for env where
  init: "initial s \<Longrightarrow> reach env s"
| step: "reach env s \<Longrightarrow> step env s e s' \<Longrightarrow> reach env s'"

subsection \<open>The invariant of the run table\<close>

definition started :: "phase \<Rightarrow> bool" where
  "started ph = (case ph of Blocked q \<Rightarrow> False | _ \<Rightarrow> True)"

text \<open>
  The invariant only reads the run table \<open>R\<close>, the promise counter \<open>n\<close> and the
  \<open>running\<close> field of every descriptor (\<open>cur\<close>), so it is stated over these three.
  Every promise was allocated before the counter:
\<close>

definition inv_alloc :: "(pid \<rightharpoonup> run) \<Rightarrow> pid \<Rightarrow> bool" where
  "inv_alloc R n \<longleftrightarrow> (\<forall>p r. R p = Some r \<longrightarrow> p < n)"

text \<open>\<open>watch.running\<close> is the latest run of its descriptor, and absent only before the first.\<close>

definition inv_running :: "(pid \<rightharpoonup> run) \<Rightarrow> (wid \<Rightarrow> pid option) \<Rightarrow> bool" where
  "inv_running R cur \<longleftrightarrow>
     (\<forall>w. case cur w of
            None \<Rightarrow> (\<forall>p r. R p = Some r \<longrightarrow> owner r \<noteq> w)
          | Some q \<Rightarrow> (\<exists>r. R q = Some r \<and> owner r = w)
                     \<and> (\<forall>p r. R p = Some r \<and> owner r = w \<longrightarrow> p \<le> q))"

text \<open>A blocked run waits for the run of its descriptor just before it.\<close>

definition inv_blocked :: "(pid \<rightharpoonup> run) \<Rightarrow> bool" where
  "inv_blocked R \<longleftrightarrow>
     (\<forall>p r q. R p = Some r \<and> phase r = Blocked q \<longrightarrow>
        q < p \<and> (\<exists>rq. R q = Some rq \<and> owner rq = owner r)
        \<and> (\<forall>p' r'. q < p' \<and> p' < p \<and> R p' = Some r' \<longrightarrow> owner r' \<noteq> owner r))"

text \<open>A run of a descriptor starts only when every earlier run of it is fulfilled.\<close>

definition inv_serial :: "(pid \<rightharpoonup> run) \<Rightarrow> bool" where
  "inv_serial R \<longleftrightarrow>
     (\<forall>p1 r1 p2 r2. R p1 = Some r1 \<and> R p2 = Some r2 \<and> owner r1 = owner r2
        \<and> p1 < p2 \<and> started (phase r2) \<longrightarrow> phase r1 = Fulfilled)"

definition table_inv :: "(pid \<rightharpoonup> run) \<Rightarrow> pid \<Rightarrow> (wid \<Rightarrow> pid option) \<Rightarrow> bool" where
  "table_inv R n cur \<longleftrightarrow> inv_alloc R n \<and> inv_running R cur \<and> inv_blocked R \<and> inv_serial R"

definition runs_inv :: "rstate \<Rightarrow> bool" where
  "runs_inv s \<longleftrightarrow> table_inv (runs s) (next_pid s) (\<lambda>w. w_running (desc s w))"

subsection \<open>Concrete runtimes\<close>

text \<open>The documented example with a body that tracks \<open>store.count\<close> and then throws, and
  with a body that returns a promise.\<close>

definition demo_throw_env :: env where
  "demo_throw_env = demo_env\<lparr>fn_of := \<lambda>_. \<lparr>script = [Track (Proxy 0) (Some ''count''), Throw],
                                              result = Sync Ret_undefined\<rparr>\<rparr>"

definition demo_async_env :: env where
  "demo_async_env = demo_env\<lparr>fn_of := \<lambda>_. demo_body\<lparr>result := Async (Ret_fn 1)\<rparr>\<rparr>"

subsection \<open>The invariant under the four ways the table changes\<close>

lemma started_simps [simp]:
  "started (Blocked q) = False" "started (Awaiting v) = True" "started Fulfilled = True"
  "started Rejected = True" "started Hung = True"
  by (simp_all add: started_def)

text \<open>The three readings of \<open>inv_running\<close>, and how to establish it.\<close>

lemma inv_running_None:
  "inv_running R cur \<Longrightarrow> cur w = None \<Longrightarrow> R p = Some r \<Longrightarrow> owner r \<noteq> w"
  unfolding inv_running_def by (drule spec [of _ w]) auto

lemma inv_running_Some:
  "inv_running R cur \<Longrightarrow> cur w = Some q \<Longrightarrow> \<exists>r. R q = Some r \<and> owner r = w"
  unfolding inv_running_def by (drule spec [of _ w]) auto

lemma inv_running_max:
  "inv_running R cur \<Longrightarrow> cur w = Some q \<Longrightarrow> R p = Some r \<Longrightarrow> owner r = w \<Longrightarrow> p \<le> q"
  unfolding inv_running_def by (drule spec [of _ w]) auto

lemma inv_runningI:
  assumes "\<And>w p r. cur w = None \<Longrightarrow> R p = Some r \<Longrightarrow> owner r \<noteq> w"
    and "\<And>w q. cur w = Some q \<Longrightarrow> \<exists>r. R q = Some r \<and> owner r = w"
    and "\<And>w q p r. cur w = Some q \<Longrightarrow> R p = Some r \<Longrightarrow> owner r = w \<Longrightarrow> p \<le> q"
  shows "inv_running R cur"
  unfolding inv_running_def
proof
  fix w
  show "case cur w of
          None \<Rightarrow> \<forall>p r. R p = Some r \<longrightarrow> owner r \<noteq> w
        | Some q \<Rightarrow> (\<exists>r. R q = Some r \<and> owner r = w) \<and> (\<forall>p r. R p = Some r \<and> owner r = w \<longrightarrow> p \<le> q)"
    using assms by (cases "cur w") auto
qed

text \<open>A first run is added: its descriptor had no run, and it starts at once.\<close>

lemma table_inv_fresh:
  assumes inv: "table_inv R n cur" and none: "cur w = None" and st: "started ph"
  shows "table_inv (R(n \<mapsto> \<lparr>owner = w, phase = ph\<rparr>)) (Suc n) (cur(w := Some n))"
proof -
  let ?R = "R(n \<mapsto> \<lparr>owner = w, phase = ph\<rparr>)"
  from inv have al: "inv_alloc R n" and ru: "inv_running R cur" and bl: "inv_blocked R"
    and se: "inv_serial R" by (simp_all add: table_inv_def)
  have noW: "R p = Some r \<Longrightarrow> owner r \<noteq> w" for p r
    using inv_running_None [OF ru none] by auto
  from al have lt: "R p = Some r \<Longrightarrow> p < n" for p r by (auto simp add: inv_alloc_def)
  have "inv_alloc ?R (Suc n)"
    using lt by (auto simp add: inv_alloc_def less_Suc_eq)
  moreover have "inv_running ?R (cur(w := Some n))"
  proof (rule inv_runningI)
    fix w' p r
    assume "(cur(w := Some n)) w' = None" "?R p = Some r"
    then show "owner r \<noteq> w'"
      using inv_running_None [OF ru] by (auto split: if_splits)
  next
    fix w' q
    assume "(cur(w := Some n)) w' = Some q"
    then show "\<exists>r. ?R q = Some r \<and> owner r = w'"
      using inv_running_Some [OF ru] lt by (fastforce split: if_splits)
  next
    fix w' q p r
    assume "(cur(w := Some n)) w' = Some q" "?R p = Some r" "owner r = w'"
    then show "p \<le> q"
      using inv_running_max [OF ru] inv_running_Some [OF ru] noW lt
      by (auto split: if_splits intro: less_imp_le)
  qed
  moreover have "inv_blocked ?R"
    unfolding inv_blocked_def
  proof (intro allI impI)
    fix p r q
    assume h: "?R p = Some r \<and> phase r = Blocked q"
    with st have Rp: "R p = Some r" by (auto split: if_splits)
    with h bl have "q < p \<and> (\<exists>rq. R q = Some rq \<and> owner rq = owner r)
        \<and> (\<forall>p' r'. q < p' \<and> p' < p \<and> R p' = Some r' \<longrightarrow> owner r' \<noteq> owner r)"
      unfolding inv_blocked_def by blast
    with lt [OF Rp] show "q < p \<and> (\<exists>rq. ?R q = Some rq \<and> owner rq = owner r)
        \<and> (\<forall>p' r'. q < p' \<and> p' < p \<and> ?R p' = Some r' \<longrightarrow> owner r' \<noteq> owner r)"
      by auto
  qed
  moreover have "inv_serial ?R"
    unfolding inv_serial_def
  proof (intro allI impI)
    fix p1 r1 p2 r2
    assume h: "?R p1 = Some r1 \<and> ?R p2 = Some r2 \<and> owner r1 = owner r2 \<and> p1 < p2 \<and> started (phase r2)"
    show "phase r1 = Fulfilled"
    proof (cases "p2 = n")
      case True
      with h have "R p1 = Some r1" and "owner r1 = w" by auto
      with noW show ?thesis by blast
    next
      case False
      with h have R2: "R p2 = Some r2" by simp
      from h lt [OF R2] have "p1 \<noteq> n" by auto
      with h have "R p1 = Some r1" by simp
      with R2 h se show ?thesis unfolding inv_serial_def by blast
    qed
  qed
  ultimately show ?thesis by (simp add: table_inv_def)
qed

text \<open>A later run is added: it waits for the descriptor's current run.\<close>

lemma table_inv_chain:
  assumes inv: "table_inv R n cur" and cur: "cur w = Some q"
  shows "table_inv (R(n \<mapsto> \<lparr>owner = w, phase = Blocked q\<rparr>)) (Suc n) (cur(w := Some n))"
proof -
  let ?R = "R(n \<mapsto> \<lparr>owner = w, phase = Blocked q\<rparr>)"
  from inv have al: "inv_alloc R n" and ru: "inv_running R cur" and bl: "inv_blocked R"
    and se: "inv_serial R" by (simp_all add: table_inv_def)
  from al have lt: "R p = Some r \<Longrightarrow> p < n" for p r by (auto simp add: inv_alloc_def)
  obtain rq where Rq: "R q = Some rq" "owner rq = w" using inv_running_Some [OF ru cur] by blast
  have maxW: "R p = Some r \<Longrightarrow> owner r = w \<Longrightarrow> p \<le> q" for p r
    using inv_running_max [OF ru cur] by blast
  have "inv_alloc ?R (Suc n)"
    using lt by (auto simp add: inv_alloc_def less_Suc_eq)
  moreover have "inv_running ?R (cur(w := Some n))"
  proof (rule inv_runningI)
    fix w' p r
    assume "(cur(w := Some n)) w' = None" "?R p = Some r"
    then show "owner r \<noteq> w'"
      using inv_running_None [OF ru] by (auto split: if_splits)
  next
    fix w' q'
    assume "(cur(w := Some n)) w' = Some q'"
    then show "\<exists>r. ?R q' = Some r \<and> owner r = w'"
      using inv_running_Some [OF ru] lt by (fastforce split: if_splits)
  next
    fix w' q' p r
    assume "(cur(w := Some n)) w' = Some q'" "?R p = Some r" "owner r = w'"
    then show "p \<le> q'"
      using inv_running_max [OF ru] inv_running_Some [OF ru] lt
      by (auto split: if_splits intro: less_imp_le)
  qed
  moreover have "inv_blocked ?R"
    unfolding inv_blocked_def
  proof (intro allI impI)
    fix p r q'
    assume h: "?R p = Some r \<and> phase r = Blocked q'"
    show "q' < p \<and> (\<exists>rq. ?R q' = Some rq \<and> owner rq = owner r)
        \<and> (\<forall>p' r'. q' < p' \<and> p' < p \<and> ?R p' = Some r' \<longrightarrow> owner r' \<noteq> owner r)"
    proof (cases "p = n")
      case True
      with h have r: "owner r = w" "q' = q" by auto
      have "q < n" using lt [OF Rq(1)] .
      moreover have "\<forall>p' r'. q < p' \<and> p' < n \<and> R p' = Some r' \<longrightarrow> owner r' \<noteq> w"
        using maxW by fastforce
      ultimately show ?thesis using True r Rq by auto
    next
      case False
      with h have Rp: "R p = Some r" by simp
      with h bl have "q' < p \<and> (\<exists>rq. R q' = Some rq \<and> owner rq = owner r)
          \<and> (\<forall>p' r'. q' < p' \<and> p' < p \<and> R p' = Some r' \<longrightarrow> owner r' \<noteq> owner r)"
        unfolding inv_blocked_def by blast
      with lt [OF Rp] show ?thesis by auto
    qed
  qed
  moreover have "inv_serial ?R"
    unfolding inv_serial_def
  proof (intro allI impI)
    fix p1 r1 p2 r2
    assume h: "?R p1 = Some r1 \<and> ?R p2 = Some r2 \<and> owner r1 = owner r2 \<and> p1 < p2 \<and> started (phase r2)"
    then have "p2 \<noteq> n" by auto
    with h have R2: "R p2 = Some r2" by simp
    from h lt [OF R2] have "p1 \<noteq> n" by auto
    with h have "R p1 = Some r1" by simp
    with R2 h se show "phase r1 = Fulfilled" unfolding inv_serial_def by blast
  qed
  ultimately show ?thesis by (simp add: table_inv_def)
qed


text \<open>Changing the phase of an existing run to a started one keeps all but the serial order.\<close>

lemma table_inv_restart:
  assumes inv: "table_inv R n cur" and Rp: "R p = Some r" and st: "started ph"
  shows "inv_alloc (R(p \<mapsto> r\<lparr>phase := ph\<rparr>)) n \<and> inv_running (R(p \<mapsto> r\<lparr>phase := ph\<rparr>)) cur
         \<and> inv_blocked (R(p \<mapsto> r\<lparr>phase := ph\<rparr>))"
proof -
  let ?R = "R(p \<mapsto> r\<lparr>phase := ph\<rparr>)"
  from inv have al: "inv_alloc R n" and ru: "inv_running R cur" and bl: "inv_blocked R"
    by (simp_all add: table_inv_def)
  have same: "(\<exists>x. ?R k = Some x \<and> owner x = o') \<longleftrightarrow> (\<exists>x. R k = Some x \<and> owner x = o')" for k o'
    using Rp by auto
  have own_back: "?R k = Some x \<Longrightarrow> \<exists>y. R k = Some y \<and> owner y = owner x" for k x
    using Rp by (auto split: if_splits)
  have "inv_alloc ?R n" using al Rp by (auto simp add: inv_alloc_def)
  moreover have "inv_running ?R cur"
  proof (rule inv_runningI)
    fix w k x assume "cur w = None" "?R k = Some x"
    then show "owner x \<noteq> w" using inv_running_None [OF ru] own_back by metis
  next
    fix w q assume "cur w = Some q"
    then show "\<exists>x. ?R q = Some x \<and> owner x = w" using inv_running_Some [OF ru] same by blast
  next
    fix w q k x assume "cur w = Some q" "?R k = Some x" "owner x = w"
    then show "k \<le> q" using inv_running_max [OF ru] own_back by metis
  qed
  moreover have "inv_blocked ?R"
    unfolding inv_blocked_def
  proof (intro allI impI)
    fix k x q
    assume h: "?R k = Some x \<and> phase x = Blocked q"
    with st have Rk: "R k = Some x" "k \<noteq> p" by (auto split: if_splits)
    with h bl have "q < k \<and> (\<exists>rq. R q = Some rq \<and> owner rq = owner x)
        \<and> (\<forall>p' r'. q < p' \<and> p' < k \<and> R p' = Some r' \<longrightarrow> owner r' \<noteq> owner x)"
      unfolding inv_blocked_def by blast
    then show "q < k \<and> (\<exists>rq. ?R q = Some rq \<and> owner rq = owner x)
        \<and> (\<forall>p' r'. q < p' \<and> p' < k \<and> ?R p' = Some r' \<longrightarrow> owner r' \<noteq> owner x)"
      using same Rp by (auto split: if_splits)
  qed
  ultimately show ?thesis by blast
qed

text \<open>A blocked run takes its reaction once the run it waits for is fulfilled.\<close>

lemma table_inv_fire:
  assumes inv: "table_inv R n cur" and Rp: "R p = Some r" and bq: "phase r = Blocked q"
    and Rq: "R q = Some rq" and fq: "phase rq = Fulfilled" and st: "started ph"
  shows "table_inv (R(p \<mapsto> r\<lparr>phase := ph\<rparr>)) n cur"
proof -
  let ?R = "R(p \<mapsto> r\<lparr>phase := ph\<rparr>)"
  from inv have bl: "inv_blocked R" and se: "inv_serial R" by (simp_all add: table_inv_def)
  from bl Rp bq have qp: "q < p" and ownq: "owner rq = owner r"
    and gap: "\<forall>p' r'. q < p' \<and> p' < p \<and> R p' = Some r' \<longrightarrow> owner r' \<noteq> owner r"
    using Rq unfolding inv_blocked_def by fastforce+
  have "inv_serial ?R"
    unfolding inv_serial_def
  proof (intro allI impI)
    fix p1 r1 p2 r2
    assume h: "?R p1 = Some r1 \<and> ?R p2 = Some r2 \<and> owner r1 = owner r2 \<and> p1 < p2 \<and> started (phase r2)"
    show "phase r1 = Fulfilled"
    proof (cases "p2 = p")
      case True
      with h Rp have R1: "R p1 = Some r1" and o1: "owner r1 = owner r" and lt1: "p1 < p" by auto
      consider "p1 = q" | "p1 < q" | "q < p1" by arith
      then show ?thesis
      proof cases
        case 1 with R1 Rq fq show ?thesis by simp
      next
        case 2 with R1 Rq fq ownq o1 se show ?thesis unfolding inv_serial_def by fastforce
      next
        case 3 with R1 o1 lt1 gap show ?thesis by blast
      qed
    next
      case False
      with h have R2: "R p2 = Some r2" by simp
      show ?thesis
      proof (cases "p1 = p")
        case True
        with h Rp R2 se bq show ?thesis unfolding inv_serial_def by fastforce
      next
        case False
        with h R2 se show ?thesis unfolding inv_serial_def by auto
      qed
    qed
  qed
  with table_inv_restart [OF inv Rp st] show ?thesis by (simp add: table_inv_def)
qed

text \<open>The promise a body returned settles: its run is fulfilled, or hangs.\<close>

lemma table_inv_settle:
  assumes inv: "table_inv R n cur" and Rp: "R p = Some r" and aw: "phase r = Awaiting v"
    and ph: "ph = Fulfilled \<or> ph = Hung"
  shows "table_inv (R(p \<mapsto> r\<lparr>phase := ph\<rparr>)) n cur"
proof -
  let ?R = "R(p \<mapsto> r\<lparr>phase := ph\<rparr>)"
  from inv have se: "inv_serial R" by (simp add: table_inv_def)
  have st: "started ph" using ph by auto
  have "inv_serial ?R"
    unfolding inv_serial_def
  proof (intro allI impI)
    fix p1 r1 p2 r2
    assume h: "?R p1 = Some r1 \<and> ?R p2 = Some r2 \<and> owner r1 = owner r2 \<and> p1 < p2 \<and> started (phase r2)"
    show "phase r1 = Fulfilled"
    proof (cases "p2 = p")
      case True
      with h Rp aw se show ?thesis unfolding inv_serial_def by fastforce
    next
      case False
      with h have R2: "R p2 = Some r2" by simp
      show ?thesis
      proof (cases "p1 = p")
        case True
        with h Rp R2 se aw show ?thesis unfolding inv_serial_def by fastforce
      next
        case False
        with h R2 se show ?thesis unfolding inv_serial_def by auto
      qed
    qed
  qed
  with table_inv_restart [OF inv Rp st] show ?thesis by (simp add: table_inv_def)
qed

subsection \<open>The invariant holds in every reachable state\<close>

lemma started_executor_phase [simp]: "started (executor_phase c)"
  by (cases c) simp_all

lemma started_reaction_phase [simp]: "started (reaction_phase c)"
  by (cases c) simp_all

lemma destroyWatch_frame [simp]:
  "runs (fst (destroyWatch env w s)) = runs s"
  "next_pid (fst (destroyWatch env w s)) = next_pid s"
  "w_running (desc (fst (destroyWatch env w s)) w') = w_running (desc s w')"
  by (simp_all add: destroyWatch_def)

lemma runWatch_table:
  assumes d: "is_dirty (desc s w)"
  shows "\<exists>ph. runs (fst (runWatch env w s)) = (runs s)(next_pid s \<mapsto> \<lparr>owner = w, phase = ph\<rparr>)
     \<and> next_pid (fst (runWatch env w s)) = Suc (next_pid s)
     \<and> (\<lambda>w'. w_running (desc (fst (runWatch env w s)) w'))
         = (\<lambda>w'. w_running (desc s w'))(w := Some (next_pid s))
     \<and> (case w_running (desc s w) of None \<Rightarrow> started ph | Some q \<Rightarrow> ph = Blocked q)"
proof (cases "w_running (desc s w)")
  case None
  let ?s2 = "(upd_desc w (\<lambda>d. d\<lparr>w_f := w_f d AND NOT WatchFlagsIsDirty\<rparr>) s)\<lparr>next_pid := Suc (next_pid s)\<rparr>"
  obtain s' c where wc: "watch_cont env w (next_pid s) ?s2 = (s', c)" by fastforce
  from watch_cont_frame [OF wc] have fr: "runs s' = runs s" "next_pid s' = Suc (next_pid s)"
    "\<forall>w'. w_running (desc s' w') = w_running (desc ?s2 w')" by auto
  have "fst (runWatch env w s) =
      upd_desc w (\<lambda>d. d\<lparr>w_running := Some (next_pid s)\<rparr>) (set_run (next_pid s) \<lparr>owner = w, phase = executor_phase c\<rparr> s')"
    using d None wc by (simp add: runWatch_def is_dirty_def Let_def)
  then show ?thesis using fr None by (auto simp add: fun_eq_iff intro!: exI [of _ "executor_phase c"])
next
  case (Some q)
  with d show ?thesis
    by (auto simp add: runWatch_def is_dirty_def Let_def fun_eq_iff intro!: exI [of _ "Blocked q"])
qed

lemma fire_run_table:
  assumes "runs s p = Some r"
  shows "\<exists>ph. started ph \<and> runs (fire_run env p s) = (runs s)(p \<mapsto> r\<lparr>phase := ph\<rparr>)
     \<and> next_pid (fire_run env p s) = next_pid s
     \<and> (\<lambda>w. w_running (desc (fire_run env p s) w)) = (\<lambda>w. w_running (desc s w))"
proof -
  obtain s' c where wc: "watch_cont env (owner r) p s = (s', c)" by fastforce
  show ?thesis using assms wc watch_cont_frame [OF wc]
    by (auto simp add: fire_run_def fun_eq_iff intro!: exI [of _ "reaction_phase c"])
qed

lemma settle_run_table:
  assumes "runs s p = Some r" "phase r = Awaiting v"
  shows "\<exists>ph. (ph = Fulfilled \<or> ph = Hung) \<and> runs (settle_run p s) = (runs s)(p \<mapsto> r\<lparr>phase := ph\<rparr>)
     \<and> next_pid (settle_run p s) = next_pid s
     \<and> (\<lambda>w. w_running (desc (settle_run p s) w)) = (\<lambda>w. w_running (desc s w))"
  using assms by (cases v) (auto simp add: settle_run_def fun_eq_iff)

lemma runs_inv_step:
  assumes "step env s e s'" and "runs_inv s"
  shows "runs_inv s'"
  using assms
proof (induction rule: step.induct)
  case (sched s w)
  show ?case
  proof (cases "is_dirty (desc s w)")
    case False
    then show ?thesis using sched by (simp add: runWatch_def is_dirty_def)
  next
    case True
    then obtain ph where t:
      "runs (fst (runWatch env w s)) = (runs s)(next_pid s \<mapsto> \<lparr>owner = w, phase = ph\<rparr>)"
      "next_pid (fst (runWatch env w s)) = Suc (next_pid s)"
      "(\<lambda>w'. w_running (desc (fst (runWatch env w s)) w'))
         = (\<lambda>w'. w_running (desc s w'))(w := Some (next_pid s))"
      "case w_running (desc s w) of None \<Rightarrow> started ph | Some q \<Rightarrow> ph = Blocked q"
      using runWatch_table by blast
    show ?thesis
    proof (cases "w_running (desc s w)")
      case None
      with t sched table_inv_fresh [of "runs s" "next_pid s" "\<lambda>w'. w_running (desc s w')" w ph]
      show ?thesis by (simp add: runs_inv_def)
    next
      case (Some q)
      with t sched table_inv_chain [of "runs s" "next_pid s" "\<lambda>w'. w_running (desc s w')" w q]
      show ?thesis by (simp add: runs_inv_def)
    qed
  qed
next
  case (fire s p r q rq)
  then obtain ph where "started ph" "runs (fire_run env p s) = (runs s)(p \<mapsto> r\<lparr>phase := ph\<rparr>)"
    "next_pid (fire_run env p s) = next_pid s"
    "(\<lambda>w. w_running (desc (fire_run env p s) w)) = (\<lambda>w. w_running (desc s w))"
    using fire_run_table by blast
  with fire table_inv_fire [of "runs s" "next_pid s" "\<lambda>w. w_running (desc s w)" p r q rq ph]
  show ?case by (simp add: runs_inv_def)
next
  case (settle s p r v)
  then obtain ph where "ph = Fulfilled \<or> ph = Hung" "runs (settle_run p s) = (runs s)(p \<mapsto> r\<lparr>phase := ph\<rparr>)"
    "next_pid (settle_run p s) = next_pid s"
    "(\<lambda>w. w_running (desc (settle_run p s) w)) = (\<lambda>w. w_running (desc s w))"
    using settle_run_table by blast
  with settle table_inv_settle [of "runs s" "next_pid s" "\<lambda>w. w_running (desc s w)" p r v ph]
  show ?case by (simp add: runs_inv_def)
next
  case (mutate s t k v)
  then show ?case by (simp add: runs_inv_def)
next
  case (destroy s w)
  then show ?case by (simp add: runs_inv_def)
qed

lemma runs_inv_initial: "initial s \<Longrightarrow> runs_inv s"
  by (simp add: initial_def runs_inv_def table_inv_def inv_alloc_def inv_running_def
      inv_blocked_def inv_serial_def)

lemma reach_runs_inv: "reach env s \<Longrightarrow> runs_inv s"
  by (induction rule: reach.induct) (auto intro: runs_inv_initial runs_inv_step)

subsection \<open>Runs of events\<close>

lemmas run_eval = runWatch_def watch_cont_def cleanupWatch_def emit_def upd_desc_def set_run_def
  body_of_def track_def getProxyTarget_def write_prop_def store_return_def is_subscribed_def
  addSub_def clearSub_def prop_truthy_def Let_def has_flag_def watch_flag_defs single_bit_def
  fire_run_def fire_enabled_def settle_run_def settle_enabled_def write_store_def notifyWatch_def
  destroyWatch_def is_dirty_def demo_defs demo_throw_env_def demo_async_env_def

inductive_cases step_MutateE: "step env s (Mutate t k v) s'"

inductive_cases step_SchedE: "step env s (Sched w) s'"

lemma exec_event_step: "exec_event env e s = Some s' \<Longrightarrow> step env s e s'"
  by (cases e)
     (auto simp add: fire_enabled_def settle_enabled_def intro: step.intros
           split: option.splits phase.splits if_splits)

lemma reach_exec_events: "reach env s \<Longrightarrow> exec_events env es s = Some s' \<Longrightarrow> reach env s'"
  by (induction es arbitrary: s) (auto split: option.splits intro: reach.step exec_event_step)

lemma initial_demo_state: "initial demo_state"
  by (simp add: initial_def demo_defs)

lemma runWatch_dirty_promise:
  "is_dirty (desc s w) \<Longrightarrow> snd (runWatch env w s) = Run_promise (next_pid s)"
  by (simp add: runWatch_def is_dirty_def Let_def split: option.split prod.split)

text \<open>Every step but a scheduler call on the descriptor keeps its dirty bit.\<close>

lemma fire_run_dirty: "is_dirty (desc s w) \<Longrightarrow> is_dirty (desc (fire_run env p s) w)"
proof (cases "runs s p")
  case (Some r)
  obtain s' c where wc: "watch_cont env (owner r) p s = (s', c)" by fastforce
  assume "is_dirty (desc s w)"
  with Some wc watch_cont_frame [OF wc] show ?thesis by (simp add: fire_run_def)
qed (simp add: fire_run_def)

lemma settle_run_dirty: "is_dirty (desc s w) \<Longrightarrow> is_dirty (desc (settle_run p s) w)"
  by (auto simp add: settle_run_def is_dirty_def split: option.split phase.split)

lemma destroyWatch_dirty: "is_dirty (desc s w) \<Longrightarrow> is_dirty (desc (fst (destroyWatch env w' s)) w)"
  by (auto simp add: destroyWatch_def is_dirty_def flag_simps)

lemma runWatch_dirty_other:
  assumes "w' \<noteq> w" "is_dirty (desc s w)"
  shows "is_dirty (desc (fst (runWatch env w' s)) w)"
proof (cases "is_dirty (desc s w') \<and> w_running (desc s w') = None")
  case True
  let ?s2 = "(upd_desc w' (\<lambda>d. d\<lparr>w_f := w_f d AND NOT WatchFlagsIsDirty\<rparr>) s)\<lparr>next_pid := Suc (next_pid s)\<rparr>"
  obtain s' c where wc: "watch_cont env w' (next_pid s) ?s2 = (s', c)" by fastforce
  with True assms watch_cont_frame [OF wc] show ?thesis
    by (simp add: runWatch_def is_dirty_def Let_def)
next
  case False
  with assms show ?thesis by (auto simp add: runWatch_def is_dirty_def Let_def split: option.split)
qed

lemma step_dirty_mono:
  "step env s e s' \<Longrightarrow> e \<noteq> Sched w \<Longrightarrow> is_dirty (desc s w) \<Longrightarrow> is_dirty (desc s' w)"
  by (induction rule: step.induct)
     (auto intro: fire_run_dirty settle_run_dirty destroyWatch_dirty runWatch_dirty_other)

text \<open>A run that was rejected or hangs never changes again.\<close>

lemma step_keeps_terminal:
  assumes "step env s e s'" "runs_inv s" "runs s p = Some r" "phase r = Rejected \<or> phase r = Hung"
  shows "runs s' p = Some r"
  using assms
proof (induction rule: step.induct)
  case (sched s w)
  have "p < next_pid s" using sched.prems(1,2) by (auto simp add: runs_inv_def table_inv_def inv_alloc_def)
  then show ?case
    using sched.prems(2) runWatch_table [of s w env]
    by (cases "is_dirty (desc s w)") (auto simp add: runWatch_def is_dirty_def)
next
  case (fire s p' r' q rq)
  then have "p' \<noteq> p" by auto
  with fire fire_run_table [of s p' r' env] show ?case by auto
next
  case (settle s p' r' v)
  then have "p' \<noteq> p" by auto
  with settle settle_run_table [of s p' r' v] show ?case by auto
qed simp_all

lemma exec_events_keeps_terminal:
  "reach env s \<Longrightarrow> exec_events env es s = Some s' \<Longrightarrow> runs s p = Some r \<Longrightarrow>
   phase r = Rejected \<or> phase r = Hung \<Longrightarrow> runs s' p = Some r"
proof (induction es arbitrary: s)
  case (Cons e es)
  then obtain s1 where e: "exec_event env e s = Some s1" and es: "exec_events env es s1 = Some s'"
    by (auto split: option.splits)
  from e have st: "step env s e s1" by (rule exec_event_step)
  with Cons.prems(1) have "reach env s1" by (rule reach.step)
  moreover from st reach_runs_inv [OF Cons.prems(1)] Cons.prems(3,4) have "runs s1 p = Some r"
    by (rule step_keeps_terminal)
  ultimately show ?case using Cons.IH es Cons.prems(4) by blast
qed simp

text \<open>A scheduler call on a dirty descriptor whose last run is fulfilled, then the
  reaction of the new promise: the continuation runs on the chained state, and the new
  run takes the phase its result gives.\<close>

lemma sched_fire_chained:
  assumes "is_dirty (desc s w)" "w_running (desc s w) = Some q" "runs s q = Some rq"
    "phase rq = Fulfilled" "q < next_pid s"
  shows "exec_events env [Sched w, Fire (next_pid s)] s =
     Some (case watch_cont env w (next_pid s)
              (s\<lparr>desc := (desc s)(w := (desc s w)\<lparr>w_f := w_f (desc s w) AND NOT WatchFlagsIsDirty,
                                                  w_running := Some (next_pid s)\<rparr>),
                 runs := (runs s)(next_pid s \<mapsto> \<lparr>owner = w, phase = Blocked q\<rparr>),
                 next_pid := Suc (next_pid s)\<rparr>) of
             (s', c) \<Rightarrow> set_run (next_pid s) \<lparr>owner = w, phase = reaction_phase c\<rparr> s')"
  using assms runWatch_chained [OF assms(1,2), of env]
  by (simp add: fire_enabled_def fire_run_def split: prod.split)

subsection \<open>Properties of the runtime\<close>

text \<open>C4 (single flight): in every reachable state, at most one run of a descriptor is
  executing its body, i.e. waits for the promise its body returned.\<close>

theorem single_flight:
  assumes "reach env s" "runs s p1 = Some r1" "runs s p2 = Some r2" "owner r1 = owner r2"
    "phase r1 = Awaiting v1" "phase r2 = Awaiting v2"
  shows "p1 = p2"
proof (rule ccontr)
  assume "p1 \<noteq> p2"
  then consider "p1 < p2" | "p2 < p1" by arith
  moreover have "inv_serial (runs s)"
    using reach_runs_inv [OF assms(1)] by (simp add: runs_inv_def table_inv_def)
  ultimately show False using assms(2-6) unfolding inv_serial_def by cases fastforce+
qed

theorem single_flight_witness:
  "reach demo_async_env (the (exec_events demo_async_env [Sched 0] demo_state)) \<and>
   runs (the (exec_events demo_async_env [Sched 0] demo_state)) 0 = Some \<lparr>owner = 0, phase = Awaiting (Some (Ret_fn 1))\<rparr> \<and>
   0 = (0::pid)"
proof -
  have ex: "exec_events demo_async_env [Sched 0] demo_state =
            Some (the (exec_events demo_async_env [Sched 0] demo_state))"
    by (simp add: run_eval)
  have r: "reach demo_async_env (the (exec_events demo_async_env [Sched 0] demo_state))"
    by (rule reach_exec_events [OF reach.init [OF initial_demo_state] ex])
  have ru: "runs (the (exec_events demo_async_env [Sched 0] demo_state)) 0 =
            Some \<lparr>owner = 0, phase = Awaiting (Some (Ret_fn 1))\<rparr>"
    by (simp add: run_eval)
  from single_flight [OF r ru ru] show ?thesis using r ru by simp
qed

text \<open>C5 (program order): a run of a descriptor starts its continuation only after every
  earlier run of the same descriptor has been fulfilled.\<close>

theorem runs_serialised:
  assumes "reach env s" "runs s p1 = Some r1" "runs s p2 = Some r2" "owner r1 = owner r2"
    "p1 < p2" "started (phase r2)"
  shows "phase r1 = Fulfilled"
  using reach_runs_inv [OF assms(1)] assms(2-6)
  unfolding runs_inv_def table_inv_def inv_serial_def by blast

theorem runs_serialised_witness:
  "reach demo_env (the (exec_events demo_env [Sched 0, Mutate 0 ''count'' 1, Sched 0, Fire 1] demo_state)) \<and>
   runs (the (exec_events demo_env [Sched 0, Mutate 0 ''count'' 1, Sched 0, Fire 1] demo_state)) 0
     = Some \<lparr>owner = 0, phase = Fulfilled\<rparr> \<and>
   runs (the (exec_events demo_env [Sched 0, Mutate 0 ''count'' 1, Sched 0, Fire 1] demo_state)) 1
     = Some \<lparr>owner = 0, phase = Fulfilled\<rparr>"
proof -
  let ?es = "[Sched 0, Mutate 0 ''count'' 1, Sched 0, Fire 1]"
  have ex: "exec_events demo_env ?es demo_state = Some (the (exec_events demo_env ?es demo_state))"
    by (simp add: run_eval)
  have r: "reach demo_env (the (exec_events demo_env ?es demo_state))"
    by (rule reach_exec_events [OF reach.init [OF initial_demo_state] ex])
  have r0: "runs (the (exec_events demo_env ?es demo_state)) 0 = Some \<lparr>owner = 0, phase = Fulfilled\<rparr>"
    and r1: "runs (the (exec_events demo_env ?es demo_state)) 1 = Some \<lparr>owner = 0, phase = Fulfilled\<rparr>"
    by (simp_all add: run_eval)
  from runs_serialised [OF r r0 r1] show ?thesis using r r0 r1 by simp
qed

text \<open>C6 (no lost update): once a descriptor is dirty it stays dirty through any sequence
  of events that contains no scheduler call on it, and the next \<open>runWatch\<close> on it starts
  a new run instead of skipping.\<close>

theorem dirty_survives_until_run:
  assumes "exec_events env es s = Some s'" "Sched w \<notin> set es" "is_dirty (desc s w)"
  shows "is_dirty (desc s' w) \<and> snd (runWatch env w s') = Run_promise (next_pid s')"
proof -
  have "is_dirty (desc s' w)"
    using assms
  proof (induction es arbitrary: s)
    case (Cons e es)
    then obtain s1 where e: "exec_event env e s = Some s1" and es: "exec_events env es s1 = Some s'"
      by (auto split: option.splits)
    have "is_dirty (desc s1 w)"
      using step_dirty_mono [OF exec_event_step [OF e]] Cons.prems by auto
    with Cons.IH es Cons.prems(2) show ?case by auto
  qed simp
  then show ?thesis by (simp add: runWatch_dirty_promise)
qed

theorem dirty_survives_until_run_witness:
  "exec_events demo_env [Mutate 0 ''count'' 5, Destroy 0] demo_state =
     Some (the (exec_events demo_env [Mutate 0 ''count'' 5, Destroy 0] demo_state)) \<and>
   Sched 0 \<notin> set [Mutate 0 ''count'' 5, Destroy 0] \<and> is_dirty (desc demo_state 0) \<and>
   is_dirty (desc (the (exec_events demo_env [Mutate 0 ''count'' 5, Destroy 0] demo_state)) 0)"
proof -
  let ?es = "[Mutate 0 ''count'' 5, Destroy 0]"
  have ex: "exec_events demo_env ?es demo_state = Some (the (exec_events demo_env ?es demo_state))"
    by (simp add: run_eval)
  have nd: "Sched 0 \<notin> set ?es" by simp
  have d: "is_dirty (desc demo_state 0)" by (simp add: run_eval)
  from dirty_survives_until_run [OF ex nd d] show ?thesis using ex nd d by simp
qed

text \<open>C7 (tracking drives notification): a first run subscribes the descriptor to the
  properties its body tracked, and to the objects it tracked as a whole. A later write
  to such a property, or to any property of such an object, marks the descriptor dirty
  again.\<close>

theorem mutation_marks_dirty:
  assumes "is_dirty (desc s w)" "w_running (desc s w) = None"
    "(t, Some k) \<in> script_tracks (script (body_of env (desc s w)))
     \<or> (t, None) \<in> script_tracks (script (body_of env (desc s w)))"
  shows "is_dirty (desc (write_prop t k v (fst (runWatch env w s))) w)"
proof -
  have "is_subscribed (subs (fst (runWatch env w s))) w t k"
    using runWatch_first_subs [OF assms(1,2), of env] assms(3) by (simp add: is_subscribed_subs_of)
  then show ?thesis by (simp add: write_prop_desc)
qed

theorem mutation_marks_dirty_witness:
  "is_dirty (desc demo_state 0) \<and> w_running (desc demo_state 0) = None
   \<and> (0, Some ''count'') \<in> script_tracks (script (body_of demo_env (desc demo_state 0)))
   \<and> is_dirty (desc (write_prop 0 ''count'' 1 (fst (runWatch demo_env 0 demo_state))) 0)"
proof -
  have d: "is_dirty (desc demo_state 0)" and r: "w_running (desc demo_state 0) = None"
    and t: "(0, Some ''count'') \<in> script_tracks (script (body_of demo_env (desc demo_state 0)))"
    by (simp_all add: run_eval body_of_def demo_defs)
  from mutation_marks_dirty [OF d r, where env = demo_env and t = 0 and k = "''count''" and v = 1] t d r
  show ?thesis by simp
qed

text \<open>C8 (a failed run blocks the descriptor for ever): once a run of a descriptor is
  rejected (its body threw on the first run) or hangs (its body threw in a later run, or
  its returned promise rejected), no later run of that descriptor ever starts, whatever
  happens afterwards.\<close>

theorem failed_run_blocks_descriptor:
  assumes "reach env s" "runs s p = Some r" "phase r = Rejected \<or> phase r = Hung"
    "exec_events env es s = Some s'" "runs s' p' = Some r'" "owner r' = owner r" "p < p'"
  shows "\<not> started (phase r')"
proof
  assume st: "started (phase r')"
  have "reach env s'" using assms(1,4) by (rule reach_exec_events)
  then have "inv_serial (runs s')" using reach_runs_inv by (simp add: runs_inv_def table_inv_def)
  moreover have "runs s' p = Some r" using exec_events_keeps_terminal assms(1-4) by blast
  ultimately have "phase r = Fulfilled" using assms(5-7) st unfolding inv_serial_def by (metis (no_types))
  with assms(3) show False by auto
qed

theorem failed_run_blocks_descriptor_witness:
  "reach demo_throw_env (fst (runWatch demo_throw_env 0 demo_state)) \<and>
   runs (fst (runWatch demo_throw_env 0 demo_state)) 0 = Some \<lparr>owner = 0, phase = Rejected\<rparr> \<and>
   runs (the (exec_events demo_throw_env [Mutate 0 ''count'' 1, Sched 0]
                (fst (runWatch demo_throw_env 0 demo_state)))) 1 = Some \<lparr>owner = 0, phase = Blocked 0\<rparr> \<and>
   \<not> started (Blocked 0)"
proof -
  let ?s = "fst (runWatch demo_throw_env 0 demo_state)"
  let ?es = "[Mutate 0 ''count'' 1, Sched 0]"
  have r: "reach demo_throw_env ?s"
    by (rule reach.step [OF reach.init [OF initial_demo_state] step.sched])
  have r0: "runs ?s 0 = Some \<lparr>owner = 0, phase = Rejected\<rparr>" by (simp add: run_eval)
  have ph: "phase \<lparr>owner = 0, phase = Rejected\<rparr> = Rejected \<or> phase \<lparr>owner = 0, phase = Rejected\<rparr> = Hung"
    by simp
  have ex: "exec_events demo_throw_env ?es ?s = Some (the (exec_events demo_throw_env ?es ?s))"
    by (simp add: run_eval)
  have r1: "runs (the (exec_events demo_throw_env ?es ?s)) 1 = Some \<lparr>owner = 0, phase = Blocked 0\<rparr>"
    by (simp add: run_eval)
  from failed_run_blocks_descriptor [OF r r0 ph ex r1] show ?thesis using r r0 r1 by simp
qed

text \<open>Storing a descriptor without a run at an id that has none keeps the invariant.\<close>

lemma runs_inv_fresh_desc:
  assumes "runs_inv s" "w_running (desc s w) = None" "w_running d = None"
  shows "runs_inv (s\<lparr>desc := (desc s)(w := d)\<rparr>)"
proof -
  have "(\<lambda>w'. w_running (((desc s)(w := d)) w')) = (\<lambda>w'. w_running (desc s w'))"
    using assms(2,3) by auto
  with assms(1) show ?thesis by (simp add: runs_inv_def)
qed

text \<open>In a reachable state the run \<open>watch.running\<close> names exists, belongs to the
  descriptor, and was allocated.\<close>

lemma reach_running_alloc:
  assumes "reach env s" "w_running (desc s w) = Some q"
  shows "\<exists>r. runs s q = Some r \<and> owner r = w \<and> q < next_pid s"
proof -
  have "table_inv (runs s) (next_pid s) (\<lambda>w. w_running (desc s w))"
    using reach_runs_inv [OF assms(1)] by (simp add: runs_inv_def)
  then show ?thesis using assms(2) inv_running_Some [of "runs s" "\<lambda>w. w_running (desc s w)" w q]
    by (fastforce simp add: table_inv_def inv_alloc_def)
qed

text \<open>C25 (a mutation during a run is queued, not lost, and does not abort the run): in a
  reachable state where a descriptor has a run, a write to a property it tracks followed
  by a scheduler call leaves that run untouched and adds a new run of the descriptor
  blocked on it, recorded as \<open>running\<close>.\<close>

theorem mutation_during_run_queued:
  assumes "reach env s" "w_running (desc s w) = Some q" "is_subscribed (subs s) w t k"
    "step env s (Mutate t k v) s1" "step env s1 (Sched w) s2"
  shows "runs s2 q = runs s q
     \<and> runs s2 (next_pid s) = Some \<lparr>owner = w, phase = Blocked q\<rparr>
     \<and> w_running (desc s2 w) = Some (next_pid s)"
proof -
  obtain r where r: "runs s q = Some r" "q < next_pid s"
    using reach_running_alloc [OF assms(1,2)] by blast
  from assms(4) have s1: "s1 = write_prop t k v s" by (rule step_MutateE)
  from assms(5) have s2: "s2 = fst (runWatch env w s1)" by (rule step_SchedE)
  have d: "is_dirty (desc s1 w)" using assms(3) s1 by (simp add: write_prop_desc)
  have "w_running (desc s1 w) = Some q" using assms(2) s1 by simp
  from runWatch_chained [OF d this, of env] s1 s2 r show ?thesis by simp
qed

theorem mutation_during_run_queued_witness:
  "reach demo_async_env (the (exec_events demo_async_env [Sched 0] demo_state)) \<and>
   runs (fst (runWatch demo_async_env 0 (write_prop 0 ''count'' 1 (the (exec_events demo_async_env [Sched 0] demo_state))))) 1
     = Some \<lparr>owner = 0, phase = Blocked 0\<rparr>"
proof -
  let ?s = "the (exec_events demo_async_env [Sched 0] demo_state)"
  have ex: "exec_events demo_async_env [Sched 0] demo_state = Some ?s" by (simp add: run_eval)
  have r: "reach demo_async_env ?s" by (rule reach_exec_events [OF reach.init [OF initial_demo_state] ex])
  have ru: "w_running (desc ?s 0) = Some 0" and sb: "is_subscribed (subs ?s) 0 0 ''count''"
    and n: "next_pid ?s = 1"
    by (simp_all add: run_eval)
  from mutation_during_run_queued [OF r ru sb step.mutate step.sched] r n show ?thesis by simp
qed

text \<open>C26 (progress of a chained run): in a reachable state, when a dirty descriptor's
  last run is fulfilled, a scheduler call followed by the reaction of the new promise is
  an enabled trace, which invokes the body and starts the new run.\<close>

theorem chained_run_fires:
  assumes "reach env s" "is_dirty (desc s w)" "w_running (desc s w) = Some q"
    "runs s q = Some rq" "phase rq = Fulfilled"
  shows "\<exists>s2. exec_events env [Sched w, Fire (next_pid s)] s = Some s2
           \<and> Body_invoked w (next_pid s) \<in> set (events s2)
           \<and> (\<exists>r. runs s2 (next_pid s) = Some r \<and> started (phase r))"
proof -
  let ?p = "next_pid s"
  let ?s1 = "fst (runWatch env w s)"
  have q: "q < ?p" using reach_running_alloc [OF assms(1,3)] by blast
  have s1: "runWatch env w s = (s\<lparr>desc := (desc s)(w := (desc s w)\<lparr>w_f := w_f (desc s w) AND NOT WatchFlagsIsDirty,
                      w_running := Some ?p\<rparr>),
        runs := (runs s)(?p \<mapsto> \<lparr>owner = w, phase = Blocked q\<rparr>), next_pid := Suc ?p\<rparr>, Run_promise ?p)"
    by (rule runWatch_chained [OF assms(2,3)])
  have r1: "runs ?s1 ?p = Some \<lparr>owner = w, phase = Blocked q\<rparr>" using s1 by simp
  have rq1: "runs ?s1 q = Some rq" using s1 q assms(4) by simp
  have en: "fire_enabled ?s1 ?p" using r1 rq1 assms(5) by (simp add: fire_enabled_def)
  obtain s' c where wc: "watch_cont env w ?p ?s1 = (s', c)" by fastforce
  have "Body_invoked w ?p \<in> set (events s')"
    using watch_cont_invokes [of w ?p env ?s1] wc by simp
  moreover have "fire_run env ?p ?s1 = set_run ?p \<lparr>owner = w, phase = reaction_phase c\<rparr> s'"
    using r1 wc by (simp add: fire_run_def)
  ultimately show ?thesis using en by simp
qed

theorem chained_run_fires_witness:
  "reach demo_env (the (exec_events demo_env [Sched 0, Mutate 0 ''count'' 1] demo_state)) \<and>
   (\<exists>s2. exec_events demo_env [Sched 0, Fire 1] (the (exec_events demo_env [Sched 0, Mutate 0 ''count'' 1] demo_state)) = Some s2
      \<and> Body_invoked 0 1 \<in> set (events s2))"
proof -
  let ?s = "the (exec_events demo_env [Sched 0, Mutate 0 ''count'' 1] demo_state)"
  have ex: "exec_events demo_env [Sched 0, Mutate 0 ''count'' 1] demo_state = Some ?s" by (simp add: run_eval)
  have r: "reach demo_env ?s" by (rule reach_exec_events [OF reach.init [OF initial_demo_state] ex])
  have d: "is_dirty (desc ?s 0)" and ru: "w_running (desc ?s 0) = Some 0"
    and q: "runs ?s 0 = Some \<lparr>owner = 0, phase = Fulfilled\<rparr>" and n: "next_pid ?s = 1"
    by (simp_all add: run_eval)
  have ph: "phase \<lparr>owner = 0, phase = Fulfilled\<rparr> = Fulfilled" by simp
  from chained_run_fires [OF r d ru q ph]
  have "\<exists>s2. exec_events demo_env [Sched 0, Fire (next_pid ?s)] ?s = Some s2
          \<and> Body_invoked 0 (next_pid ?s) \<in> set (events s2)" by blast
  then show ?thesis using r unfolding n by blast
qed

text \<open>Running a trace in two parts.\<close>

lemma exec_events_append:
  "exec_events env (xs @ ys) s = (case exec_events env xs s of None \<Rightarrow> None | Some s' \<Rightarrow> exec_events env ys s')"
  by (induction xs arbitrary: s) (auto split: option.split)

text \<open>Writes that no edge of a descriptor matches leave it, and the run table, alone.\<close>

lemma unsubscribed_writes:
  assumes "subs_of (subs s) w = {}"
  shows "\<exists>s'. exec_events env (map (Mutate t k) vs) s = Some s' \<and> desc s' w = desc s w
           \<and> subs s' = subs s \<and> events s' = events s \<and> runs s' = runs s"
  using assms
proof (induction vs arbitrary: s)
  case (Cons v vs)
  have "desc (write_prop t k v s) w = desc s w"
    using Cons.prems by (simp add: write_prop_desc is_subscribed_subs_of)
  with Cons.IH [of "write_prop t k v s"] Cons.prems show ?case by simp
qed simp

text \<open>Every step changes flag words only where the operations say.\<close>

inductive_cases step_DestroyE: "step env s (Destroy w) s'"

lemma step_dirty_frame: "step env s e s' \<Longrightarrow> (\<forall>w. e \<noteq> Destroy w) \<Longrightarrow> dirty_frame s s'"
proof (induction rule: step.induct)
  case (sched s w)
  show ?case using runWatch_flags by blast
next
  case (fire s p r q rq)
  obtain s1 c where "watch_cont env (owner r) p s = (s1, c)" by fastforce
  with watch_cont_flags [OF this] fire.hyps(1) show ?case by (simp add: fire_run_def)
next
  case (settle s p r v)
  then show ?case by (simp add: settle_run_def store_return_def split: phase.split option.split ret.split)
next
  case (mutate s t k v)
  then show ?case by (simp add: write_prop_desc notifyWatch_def or_and_not)
qed simp

lemma step_flags_wf: "step env s e s' \<Longrightarrow> desc_wf s \<Longrightarrow> desc_wf s'"
proof (cases "\<exists>w. e = Destroy w")
  case True
  then obtain w where "e = Destroy w" by blast
  moreover assume "step env s e s'" "desc_wf s"
  ultimately show ?thesis by (auto elim: step_DestroyE intro: destroyWatch_flags_wf)
next
  case False
  assume "step env s e s'" "desc_wf s"
  with False show ?thesis using step_dirty_frame dirty_frame_wf by blast
qed

text \<open>C33 (ordering of destroy and a chained run): \<open>destroyWatch\<close> does not cancel a run
  that is blocked on the previous run's promise. When that promise is fulfilled, destroying
  the descriptor and then letting the promise react is an enabled trace, and the body is
  invoked after everything the destroy logged. The new run then starts.\<close>

theorem destroy_then_chained_fire:
  assumes "runs s p = Some r" "owner r = w" "phase r = Blocked q"
    "runs s q = Some rq" "phase rq = Fulfilled"
  shows "\<exists>s2. exec_events env [Destroy w, Fire p] s = Some s2
           \<and> (\<exists>es. events s2 = events (fst (destroyWatch env w s)) @ es \<and> Body_invoked w p \<in> set es)
           \<and> (\<exists>ph. started ph \<and> runs s2 p = Some (r\<lparr>phase := ph\<rparr>))"
proof -
  let ?s1 = "fst (destroyWatch env w s)"
  have r1: "runs ?s1 p = Some r" and rq1: "runs ?s1 q = Some rq" using assms(1,4) by simp_all
  have en: "fire_enabled ?s1 p" using r1 rq1 assms(3,5) by (simp add: fire_enabled_def)
  obtain s' c where wc: "watch_cont env w p ?s1 = (s', c)" by fastforce
  have ev: "events s' = events ?s1 @ (cleanup_events env w (desc ?s1 w) @ [Subs_cleared w, Body_invoked w p])"
    using watch_cont_log [of env w p ?s1] wc by (simp add: cleanupWatch_events)
  have f: "fire_run env p ?s1 = set_run p (r\<lparr>phase := reaction_phase c\<rparr>) s'"
    using r1 wc assms(2) by (simp add: fire_run_def)
  obtain ph where ph: "started ph \<and> runs (fire_run env p ?s1) p = Some (r\<lparr>phase := ph\<rparr>)"
    using fire_run_table [OF r1, of env] by auto
  show ?thesis using en ev f ph by (auto simp add: set_run_def)
qed

theorem destroy_then_chained_fire_witness:
  "runs (the (exec_events demo_env [Sched 0, Mutate 0 ''count'' 1, Sched 0] demo_state)) 1
      = Some \<lparr>owner = 0, phase = Blocked 0\<rparr>
   \<and> runs (the (exec_events demo_env [Sched 0, Mutate 0 ''count'' 1, Sched 0] demo_state)) 0
      = Some \<lparr>owner = 0, phase = Fulfilled\<rparr>
   \<and> (\<exists>s2. exec_events demo_env [Destroy 0, Fire 1]
            (the (exec_events demo_env [Sched 0, Mutate 0 ''count'' 1, Sched 0] demo_state)) = Some s2
        \<and> Body_invoked 0 1 \<in> set (events s2))"
proof -
  let ?s = "the (exec_events demo_env [Sched 0, Mutate 0 ''count'' 1, Sched 0] demo_state)"
  have a: "runs ?s 1 = Some \<lparr>owner = 0, phase = Blocked 0\<rparr>" "runs ?s 0 = Some \<lparr>owner = 0, phase = Fulfilled\<rparr>"
    by (simp_all add: run_eval)
  have o: "owner \<lparr>owner = 0::wid, phase = Blocked 0\<rparr> = 0" "phase \<lparr>owner = 0::wid, phase = Blocked 0\<rparr> = Blocked 0"
    "phase \<lparr>owner = 0::wid, phase = Fulfilled\<rparr> = Fulfilled" by simp_all
  obtain s2 es where e: "exec_events demo_env [Destroy 0, Fire 1] ?s = Some s2"
    and ev: "events s2 = events (fst (destroyWatch demo_env 0 ?s)) @ es" "Body_invoked 0 1 \<in> set es"
    using destroy_then_chained_fire [OF a(1) o(1,2) a(2) o(3), of demo_env] by blast
  have "Body_invoked 0 1 \<in> set (events s2)" using ev by simp
  then show ?thesis using a e by blast
qed

end
