(* ===== verification/Registrars.thy ===== *)
theory Registrars
  imports Runner
begin

text \<open>
  The lifecycle registrars of \<open>use-watch.ts\<close>: \<open>useWatchQrl\<close> (lines 128--147),
  \<open>useClientEffectQrl\<close> (240--258), \<open>useServerMountQrl\<close> (329--338),
  \<open>useClientMountQrl\<close> (414--423), \<open>useMountQrl\<close> (493--499), their \<open>$\<close> forms
  (lines 211, 287, 380, 457, 535), the run-trigger adapter \<open>useRunWatch\<close> (645--651)
  with \<open>getWatchHandlerQrl\<close> (653--665), and the handler \<open>handleWatch\<close> it points
  to. They run while a component renders, inside a hook state: the runtime state (whose
  descriptor heap receives new descriptors), the per-element context (the
  sequential-scope slots \<open>$seq$\<close> and the effect list \<open>$watches$\<close>), the render cursor,
  and what the render collects: the promises it waits on, the run triggers it registers
  and the elements given to the visibility observer. The hook-context helpers
  (\<open>useSequentialScope\<close>, \<open>getContext\<close>, \<open>useWaitOn\<close>, \<open>useResumeQrl\<close>,
  \<open>useVisibleQrl\<close>), \<open>implicit$FirstArg\<close> and \<open>handleWatch\<close> live in other
  modules and are modelled from the specification.
\<close>

unbundle bit_operations_syntax

record elem_ctx =
  seq :: "nat \<rightharpoonup> bool"
  watches :: "wid list"

text \<open>What \<open>useWaitOn\<close> receives: the deferred first run of a watch, or the promise of an
  invoked mount function.\<close>

datatype wait = Deferred_run wid | Mount_invoked qrl

text \<open>What \<open>useResumeQrl\<close> and \<open>useVisibleQrl\<close> register.\<close>

datatype trigger = On_load qrl | On_visible qrl

record hstate =
  rt :: rstate
  ectx :: "elem \<Rightarrow> elem_ctx"
  host :: elem
  seq_idx :: nat
  wait_on :: "wait list"
  triggers :: "trigger list"
  is_server :: bool
  observer :: bool
  observed :: "elem list"
  next_wid :: wid

subsection \<open>The hook context\<close>

text \<open>
  \<open>useSequentialScope()\<close>: the value stored at the cursor's slot of the host element,
  the cursor, and the state with the cursor advanced. The slot's setter is \<open>setWatch\<close>.
\<close>

definition useSequentialScope :: "hstate \<Rightarrow> bool option \<times> nat \<times> hstate" where
  "useSequentialScope s = (seq (ectx s (host s)) (seq_idx s), seq_idx s, s\<lparr>seq_idx := Suc (seq_idx s)\<rparr>)"

definition setWatch :: "nat \<Rightarrow> hstate \<Rightarrow> hstate" where
  "setWatch i s =
     s\<lparr>ectx := (ectx s)(host s := (ectx s (host s))\<lparr>seq := (seq (ectx s (host s)))(i \<mapsto> True)\<rparr>)\<rparr>"

text \<open>JavaScript truthiness of the slot value in \<open>if (!watch)\<close>.\<close>

definition slot_truthy :: "bool option \<Rightarrow> bool" where
  "slot_truthy v \<longleftrightarrow> v = Some True"

text \<open>The object literal \<open>const watch = {...}\<close>: a new descriptor in the heap.\<close>

definition alloc_watch :: "watch_descriptor \<Rightarrow> hstate \<Rightarrow> wid \<times> hstate" where
  "alloc_watch d s =
     (next_wid s, s\<lparr>rt := (rt s)\<lparr>desc := (desc (rt s))(next_wid s := d)\<rparr>, next_wid := Suc (next_wid s)\<rparr>)"

text \<open>\<open>getContext(el).$watches$.push(watch)\<close>.\<close>

definition push_watch :: "elem \<Rightarrow> wid \<Rightarrow> hstate \<Rightarrow> hstate" where
  "push_watch e w s = s\<lparr>ectx := (ectx s)(e := (ectx s e)\<lparr>watches := watches (ectx s e) @ [w]\<rparr>)\<rparr>"

definition useWaitOn :: "wait \<Rightarrow> hstate \<Rightarrow> hstate" where
  "useWaitOn x s = s\<lparr>wait_on := wait_on s @ [x]\<rparr>"

definition register_trigger :: "trigger \<Rightarrow> hstate \<Rightarrow> hstate" where
  "register_trigger t s = s\<lparr>triggers := triggers s @ [t]\<rparr>"

subsection \<open>The run-trigger adapter\<close>

text \<open>
  \<^verbatim>\<open>new QRLInternal(watchQrl.$chunk$, 'handleWatch', handleWatch, null, null, [watch]);
     watchHandler.$refSymbol$ = watchQrl.$symbol$;\<close>
\<close>

definition getWatchHandlerQrl :: "wid \<Rightarrow> watch_descriptor \<Rightarrow> qrl" where
  "getWatchHandlerQrl w d =
     \<lparr>q_chunk = q_chunk (w_qrl d), q_symbol = ''handleWatch'', q_capture_ref = [w],
      q_ref_symbol = Some (q_symbol (w_qrl d))\<rparr>"

text \<open>\<open>if (run === 'load') useResumeQrl(...) else if (run === 'visible') useVisibleQrl(...)\<close>.\<close>

definition useRunWatch :: "wid \<Rightarrow> run_option option \<Rightarrow> hstate \<Rightarrow> hstate" where
  "useRunWatch w r s =
     (case r of
        Some Load \<Rightarrow> register_trigger (On_load (getWatchHandlerQrl w (desc (rt s) w))) s
      | Some Visible \<Rightarrow> register_trigger (On_visible (getWatchHandlerQrl w (desc (rt s) w))) s
      | None \<Rightarrow> s)"

text \<open>The handler QRL a registered trigger calls.\<close>

definition trigger_qrl :: "trigger \<Rightarrow> qrl" where
  "trigger_qrl t = (case t of On_load h \<Rightarrow> h | On_visible h \<Rightarrow> h)"

text \<open>\<open>handleWatch\<close>: the handler behind every run trigger; it reads the descriptor from
  the handler's captured scope and notifies it, so the render scheduler runs it.\<close>

definition handleWatch :: "qrl \<Rightarrow> rstate \<Rightarrow> rstate" where
  "handleWatch h s = (case q_capture_ref h of [w] \<Rightarrow> upd_desc w notifyWatch s | _ \<Rightarrow> s)"

subsection \<open>The registrars\<close>

definition new_descriptor :: "qrl \<Rightarrow> elem \<Rightarrow> flags \<Rightarrow> nat \<Rightarrow> watch_descriptor" where
  "new_descriptor q e fl i =
     \<lparr>w_qrl = q, w_el = e, w_f = fl, w_i = i, w_destroy = None, w_running = None\<rparr>"

definition useWatchQrl :: "qrl \<Rightarrow> use_effect_options option \<Rightarrow> hstate \<Rightarrow> hstate" where
  "useWatchQrl q opts s =
     (case useSequentialScope s of
        (v, i, s1) \<Rightarrow>
          if slot_truthy v then s1
          else
            (case alloc_watch (new_descriptor q (host s1) (WatchFlagsIsDirty OR WatchFlagsIsWatch) i) s1 of
               (w, s2) \<Rightarrow>
                 (let s3 = useWaitOn (Deferred_run w) (push_watch (host s2) w (setWatch i s2))
                  in if is_server s3 then useRunWatch w (opts_run opts) s3 else s3)))"

definition useClientEffectQrl :: "qrl \<Rightarrow> use_effect_options option \<Rightarrow> hstate \<Rightarrow> hstate" where
  "useClientEffectQrl q opts s =
     (case useSequentialScope s of
        (v, i, s1) \<Rightarrow>
          if slot_truthy v then s1
          else
            (case alloc_watch (new_descriptor q (host s1) WatchFlagsIsEffect i) s1 of
               (w, s2) \<Rightarrow>
                 (let s3 = useRunWatch w (Some (case opts_run opts of None \<Rightarrow> Visible | Some r \<Rightarrow> r))
                             (push_watch (host s2) w (setWatch i s2))
                  in if observer s3 then s3\<lparr>observed := observed s3 @ [host s3]\<rparr> else s3)))"

definition useServerMountQrl :: "qrl \<Rightarrow> hstate \<Rightarrow> hstate" where
  "useServerMountQrl mq s =
     (case useSequentialScope s of
        (v, i, s1) \<Rightarrow>
          if slot_truthy v then s1
          else (let s2 = setWatch i s1 in if is_server s2 then useWaitOn (Mount_invoked mq) s2 else s2))"

definition useClientMountQrl :: "qrl \<Rightarrow> hstate \<Rightarrow> hstate" where
  "useClientMountQrl mq s =
     (case useSequentialScope s of
        (v, i, s1) \<Rightarrow>
          if slot_truthy v then s1
          else (let s2 = setWatch i s1 in if \<not> is_server s2 then useWaitOn (Mount_invoked mq) s2 else s2))"

definition useMountQrl :: "qrl \<Rightarrow> hstate \<Rightarrow> hstate" where
  "useMountQrl mq s =
     (case useSequentialScope s of
        (v, i, s1) \<Rightarrow> if slot_truthy v then s1 else useWaitOn (Mount_invoked mq) (setWatch i s1))"

subsection \<open>The \<open>$\<close>-suffixed entry points\<close>

text \<open>
  \<open>implicit$FirstArg(fn)\<close> returns \<open>(first, ...rest) => fn($(first), ...rest)\<close>: the
  closure passed first is turned into a QRL by \<open>$\<close>, which the build-time optimizer
  resolves to the chunk and symbol it extracts the closure to. \<open>$\<close> is a parameter
  \<open>dollar\<close> here, from whatever names the closures to their QRLs; the other arguments
  stay curried in \<open>'r\<close>.
\<close>

definition implicit_first_arg :: "('f \<Rightarrow> qrl) \<Rightarrow> (qrl \<Rightarrow> 'r) \<Rightarrow> 'f \<Rightarrow> 'r" where
  "implicit_first_arg dollar fn first = fn (dollar first)"

definition useWatch_dollar :: "('f \<Rightarrow> qrl) \<Rightarrow> 'f \<Rightarrow> use_effect_options option \<Rightarrow> hstate \<Rightarrow> hstate" where
  "useWatch_dollar dollar = implicit_first_arg dollar useWatchQrl"

definition useClientEffect_dollar :: "('f \<Rightarrow> qrl) \<Rightarrow> 'f \<Rightarrow> use_effect_options option \<Rightarrow> hstate \<Rightarrow> hstate" where
  "useClientEffect_dollar dollar = implicit_first_arg dollar useClientEffectQrl"

definition useServerMount_dollar :: "('f \<Rightarrow> qrl) \<Rightarrow> 'f \<Rightarrow> hstate \<Rightarrow> hstate" where
  "useServerMount_dollar dollar = implicit_first_arg dollar useServerMountQrl"

definition useClientMount_dollar :: "('f \<Rightarrow> qrl) \<Rightarrow> 'f \<Rightarrow> hstate \<Rightarrow> hstate" where
  "useClientMount_dollar dollar = implicit_first_arg dollar useClientMountQrl"

definition useMount_dollar :: "('f \<Rightarrow> qrl) \<Rightarrow> 'f \<Rightarrow> hstate \<Rightarrow> hstate" where
  "useMount_dollar dollar = implicit_first_arg dollar useMountQrl"

subsection \<open>A component's render\<close>

text \<open>
  A component body calls its hooks in order; each render starts the sequential-scope
  cursor at 0 (done by the render machinery outside this file).
\<close>

datatype hook =
    Use_watch qrl "use_effect_options option"
  | Use_client_effect qrl "use_effect_options option"
  | Use_server_mount qrl
  | Use_client_mount qrl
  | Use_mount qrl

fun apply_hook :: "hook \<Rightarrow> hstate \<Rightarrow> hstate" where
  "apply_hook (Use_watch q opts) s = useWatchQrl q opts s"
| "apply_hook (Use_client_effect q opts) s = useClientEffectQrl q opts s"
| "apply_hook (Use_server_mount q) s = useServerMountQrl q s"
| "apply_hook (Use_client_mount q) s = useClientMountQrl q s"
| "apply_hook (Use_mount q) s = useMountQrl q s"

definition render :: "hook list \<Rightarrow> hstate \<Rightarrow> hstate" where
  "render hs s = fold apply_hook hs (s\<lparr>seq_idx := 0\<rparr>)"

subsection \<open>Reference notions for the theorems\<close>

text \<open>The call site at the cursor already holds its hook.\<close>

definition hook_taken :: "hstate \<Rightarrow> bool" where
  "hook_taken s \<longleftrightarrow> slot_truthy (seq (ectx s (host s)) (seq_idx s))"

text \<open>
  The registration invariant: in every element's effect list the descriptors are
  distinct, were allocated, belong to that element, sit at distinct call-site indices,
  and their call-site slots are taken.
\<close>

definition reg_inv :: "hstate \<Rightarrow> bool" where
  "reg_inv s \<longleftrightarrow>
     (\<forall>e. distinct (watches (ectx s e))
        \<and> distinct (map (\<lambda>w. w_i (desc (rt s) w)) (watches (ectx s e)))
        \<and> (\<forall>w \<in> set (watches (ectx s e)). w < next_wid s \<and> w_el (desc (rt s) w) = e
              \<and> slot_truthy (seq (ectx s e) (w_i (desc (rt s) w)))))"

text \<open>A component before its first render, on the server.\<close>

definition demo_hstate :: hstate where
  "demo_hstate = \<lparr>rt = demo_state, ectx = (\<lambda>_. \<lparr>seq = Map.empty, watches = []\<rparr>), host = 0,
                  seq_idx = 0, wait_on = [], triggers = [], is_server = True, observer = False,
                  observed = [], next_wid = 0\<rparr>"

subsection \<open>Properties of the registrars\<close>

lemmas dollar_defs = implicit_first_arg_def useWatch_dollar_def useClientEffect_dollar_def
  useServerMount_dollar_def useClientMount_dollar_def useMount_dollar_def

text \<open>A component written with the \<open>$\<close> forms calls the registrars on the QRLs of its
  closures, in the same order: the hook list of \<open>render\<close>.\<close>

lemma dollar_apply_hook:
  "useWatch_dollar dollar f opts = apply_hook (Use_watch (dollar f) opts)"
  "useClientEffect_dollar dollar f opts = apply_hook (Use_client_effect (dollar f) opts)"
  "useServerMount_dollar dollar f = apply_hook (Use_server_mount (dollar f))"
  "useClientMount_dollar dollar f = apply_hook (Use_client_mount (dollar f))"
  "useMount_dollar dollar f = apply_hook (Use_mount (dollar f))"
  by (simp_all add: dollar_defs fun_eq_iff)

lemmas hook_defs = useSequentialScope_def setWatch_def alloc_watch_def push_watch_def useWaitOn_def
  register_trigger_def useRunWatch_def new_descriptor_def Let_def

lemma apply_hook_taken:
  "hook_taken s \<Longrightarrow> apply_hook h s = s\<lparr>seq_idx := Suc (seq_idx s)\<rparr>"
  by (cases h) (simp_all add: hook_taken_def useWatchQrl_def useClientEffectQrl_def
      useServerMountQrl_def useClientMountQrl_def useMountQrl_def useSequentialScope_def)

lemma apply_hook_frame [simp]:
  "host (apply_hook h s) = host s" "seq_idx (apply_hook h s) = Suc (seq_idx s)"
  "is_server (apply_hook h s) = is_server s" "observer (apply_hook h s) = observer s"
  by (cases h; auto simp add: useWatchQrl_def useClientEffectQrl_def useServerMountQrl_def
      useClientMountQrl_def useMountQrl_def hook_defs split: option.split run_option.split)+

lemma apply_hook_slot:
  "slot_truthy (seq (ectx (apply_hook h s) e) j) \<longleftrightarrow>
   slot_truthy (seq (ectx s e) j) \<or> (e = host s \<and> j = seq_idx s)"
  by (cases h; auto simp add: useWatchQrl_def useClientEffectQrl_def useServerMountQrl_def
      useClientMountQrl_def useMountQrl_def hook_defs slot_truthy_def
      split: option.split run_option.split)+


lemma fold_hooks_frame:
  "host (fold apply_hook hs s) = host s \<and> seq_idx (fold apply_hook hs s) = seq_idx s + length hs"
  by (induction hs arbitrary: s) simp_all

lemma fold_hooks_slot:
  "slot_truthy (seq (ectx (fold apply_hook hs s) e) j) \<longleftrightarrow>
   slot_truthy (seq (ectx s e) j) \<or> (e = host s \<and> seq_idx s \<le> j \<and> j < seq_idx s + length hs)"
proof (induction hs arbitrary: s)
  case (Cons h hs)
  show ?case using Cons.IH [of "apply_hook h s"] by (auto simp add: apply_hook_slot)
qed auto

lemma fold_hooks_taken:
  assumes "\<forall>j. seq_idx s \<le> j \<and> j < seq_idx s + length hs \<longrightarrow> slot_truthy (seq (ectx s (host s)) j)"
  shows "fold apply_hook hs s = s\<lparr>seq_idx := seq_idx s + length hs\<rparr>"
  using assms
proof (induction hs arbitrary: s)
  case (Cons h hs)
  then have "hook_taken s" by (auto simp add: hook_taken_def)
  then have "apply_hook h s = s\<lparr>seq_idx := Suc (seq_idx s)\<rparr>" by (rule apply_hook_taken)
  with Cons show ?case by simp
qed simp

text \<open>C9 (registration happens once per call site): rendering a component again with the
  same hooks changes nothing: no descriptor is created, pushed or scheduled twice.\<close>

theorem render_idempotent: "render hs (render hs s) = render hs s"
proof -
  let ?s1 = "render hs s"
  have f: "host ?s1 = host s" "seq_idx ?s1 = length hs"
    using fold_hooks_frame [of hs "s\<lparr>seq_idx := 0\<rparr>"] by (simp_all add: render_def)
  have "\<forall>j. 0 \<le> j \<and> j < length hs \<longrightarrow> slot_truthy (seq (ectx ?s1 (host ?s1)) j)"
    using fold_hooks_slot [of hs "s\<lparr>seq_idx := 0\<rparr>"] f by (simp add: render_def)
  then have "fold apply_hook hs (?s1\<lparr>seq_idx := 0\<rparr>) = ?s1\<lparr>seq_idx := length hs\<rparr>"
    using fold_hooks_taken [of "?s1\<lparr>seq_idx := 0\<rparr>" hs] by simp
  with f show ?thesis by (simp add: render_def [of hs ?s1])
qed


lemma apply_hook_registry:
  "(desc (rt (apply_hook h s)) = desc (rt s) \<and> next_wid (apply_hook h s) = next_wid s
    \<and> (\<forall>e. watches (ectx (apply_hook h s) e) = watches (ectx s e)))
   \<or> (\<not> hook_taken s
      \<and> w_el (desc (rt (apply_hook h s)) (next_wid s)) = host s
      \<and> w_i (desc (rt (apply_hook h s)) (next_wid s)) = seq_idx s
      \<and> desc (rt (apply_hook h s)) = (desc (rt s))(next_wid s := desc (rt (apply_hook h s)) (next_wid s))
      \<and> next_wid (apply_hook h s) = Suc (next_wid s)
      \<and> (\<forall>e. watches (ectx (apply_hook h s) e) =
              (if e = host s then watches (ectx s e) @ [next_wid s] else watches (ectx s e))))"
  by (cases h; cases "hook_taken s";
      auto simp add: hook_taken_def useWatchQrl_def useClientEffectQrl_def useServerMountQrl_def
        useClientMountQrl_def useMountQrl_def hook_defs split: option.split run_option.split)

lemma reg_inv_apply_hook:
  assumes inv: "reg_inv s"
  shows "reg_inv (apply_hook h s)"
proof -
  let ?t = "apply_hook h s"
  let ?n = "next_wid s"
  let ?d = "desc (rt ?t) ?n"
  have old: "\<And>e w. w \<in> set (watches (ectx s e)) \<Longrightarrow> w < ?n \<and> w_el (desc (rt s) w) = e
              \<and> slot_truthy (seq (ectx s e) (w_i (desc (rt s) w)))"
    using inv by (simp add: reg_inv_def)
  from apply_hook_registry [of h s] show ?thesis
  proof
    assume "desc (rt ?t) = desc (rt s) \<and> next_wid ?t = ?n \<and> (\<forall>e. watches (ectx ?t e) = watches (ectx s e))"
    with inv show ?thesis by (simp add: reg_inv_def apply_hook_slot)
  next
    assume a: "\<not> hook_taken s \<and> w_el ?d = host s \<and> w_i ?d = seq_idx s
      \<and> desc (rt ?t) = (desc (rt s))(?n := ?d) \<and> next_wid ?t = Suc ?n
      \<and> (\<forall>e. watches (ectx ?t e) = (if e = host s then watches (ectx s e) @ [?n] else watches (ectx s e)))"
    have fresh: "\<And>e. ?n \<notin> set (watches (ectx s e))" using old by blast
    have newi: "seq_idx s \<notin> set (map (\<lambda>w. w_i (desc (rt s) w)) (watches (ectx s (host s))))"
      using a old by (auto simp add: hook_taken_def)
    have ds: "\<And>w. w \<noteq> ?n \<Longrightarrow> desc (rt ?t) w = desc (rt s) w" using a by (metis fun_upd_other)
    have ws: "\<And>e. watches (ectx ?t e) = (if e = host s then watches (ectx s e) @ [?n] else watches (ectx s e))"
      using a by blast
    have nx: "next_wid ?t = Suc ?n" using a by blast
    have el: "w_el ?d = host s" and wi: "w_i ?d = seq_idx s" using a by blast+
    have keep: "\<And>e w. w \<in> set (watches (ectx s e)) \<Longrightarrow> desc (rt ?t) w = desc (rt s) w"
      using ds fresh by metis
    have map_keep: "\<And>e. map (\<lambda>w. w_i (desc (rt ?t) w)) (watches (ectx s e))
                      = map (\<lambda>w. w_i (desc (rt s) w)) (watches (ectx s e))"
      using keep by (auto intro: map_cong)
    have dist: "\<And>e. distinct (watches (ectx s e)) \<and> distinct (map (\<lambda>w. w_i (desc (rt s) w)) (watches (ectx s e)))"
      using inv by (simp add: reg_inv_def)
    show ?thesis
      unfolding reg_inv_def
    proof
      fix e
      show "distinct (watches (ectx ?t e)) \<and> distinct (map (\<lambda>w. w_i (desc (rt ?t) w)) (watches (ectx ?t e)))
          \<and> (\<forall>w \<in> set (watches (ectx ?t e)). w < next_wid ?t \<and> w_el (desc (rt ?t) w) = e
                \<and> slot_truthy (seq (ectx ?t e) (w_i (desc (rt ?t) w))))"
      proof (cases "e = host s")
        case True
        have "distinct (watches (ectx ?t e))" using True ws dist fresh by simp
        moreover have "distinct (map (\<lambda>w. w_i (desc (rt ?t) w)) (watches (ectx ?t e)))"
        proof -
          have "map (\<lambda>w. w_i (desc (rt ?t) w)) (watches (ectx ?t e))
              = map (\<lambda>w. w_i (desc (rt s) w)) (watches (ectx s (host s))) @ [seq_idx s]"
          proof -
            have L: "watches (ectx ?t e) = watches (ectx s (host s)) @ [?n]" using True ws by simp
            show ?thesis unfolding L map_append map_keep [of "host s"] using a by simp
          qed
          then show ?thesis using dist [of "host s"] newi by simp
        qed
        moreover have "\<forall>w \<in> set (watches (ectx ?t e)). w < next_wid ?t \<and> w_el (desc (rt ?t) w) = e
                \<and> slot_truthy (seq (ectx ?t e) (w_i (desc (rt ?t) w)))"
        proof
          fix w assume w: "w \<in> set (watches (ectx ?t e))"
          show "w < next_wid ?t \<and> w_el (desc (rt ?t) w) = e \<and> slot_truthy (seq (ectx ?t e) (w_i (desc (rt ?t) w)))"
          proof (cases "w = ?n")
            case True
            with \<open>e = host s\<close> el wi nx show ?thesis by (simp add: apply_hook_slot)
          next
            case False
            with w \<open>e = host s\<close> ws have "w \<in> set (watches (ectx s e))" by simp
            with old keep nx show ?thesis by (simp add: apply_hook_slot less_Suc_eq)
          qed
        qed
        ultimately show ?thesis by blast
      next
        case False
        have "distinct (watches (ectx ?t e))" using False ws dist by simp
        moreover have "distinct (map (\<lambda>w. w_i (desc (rt ?t) w)) (watches (ectx ?t e)))"
          using False ws dist [of e] by (simp add: map_keep [of e])
        moreover have "\<forall>w \<in> set (watches (ectx ?t e)). w < next_wid ?t \<and> w_el (desc (rt ?t) w) = e
                \<and> slot_truthy (seq (ectx ?t e) (w_i (desc (rt ?t) w)))"
          using False ws nx old keep by (simp add: apply_hook_slot less_Suc_eq)
        ultimately show ?thesis by blast
      qed
    qed
  qed
qed


lemma reg_inv_fold: "reg_inv s \<Longrightarrow> reg_inv (fold apply_hook hs s)"
  by (induction hs arbitrary: s) (simp_all add: reg_inv_apply_hook)

lemma reg_inv_seq_idx [simp]: "reg_inv (s\<lparr>seq_idx := k\<rparr>) = reg_inv s"
  by (simp add: reg_inv_def)

text \<open>C10 (one descriptor per element and call-site index): every render keeps the
  registration invariant, so an element's effect list never holds two descriptors for one
  call site, and each descriptor belongs to the element whose list holds it.\<close>

theorem render_reg_inv:
  assumes "reg_inv s"
  shows "reg_inv (render hs s)"
  using assms by (simp add: render_def reg_inv_fold)

theorem render_reg_inv_witness:
  "reg_inv demo_hstate \<and>
   reg_inv (render [Use_watch demo_qrl None, Use_server_mount demo_qrl, Use_watch demo_qrl None] demo_hstate)"
proof -
  have h: "reg_inv demo_hstate" by (simp add: reg_inv_def demo_hstate_def)
  from render_reg_inv [OF h] show ?thesis using h by blast
qed

text \<open>C11: \<open>useWatchQrl\<close> at a fresh call site allocates a descriptor flagged
  \<open>IsDirty|IsWatch\<close> for the host element at the cursor's index, appends it to the
  element's effect list, queues its deferred first run, and on the server alone wires it to
  the requested run trigger.\<close>

theorem useWatchQrl_registers:
  assumes "\<not> hook_taken s"
  shows "desc (rt (useWatchQrl q opts s)) (next_wid s) =
           new_descriptor q (host s) (WatchFlagsIsDirty OR WatchFlagsIsWatch) (seq_idx s)
     \<and> watches (ectx (useWatchQrl q opts s) (host s)) = watches (ectx s (host s)) @ [next_wid s]
     \<and> wait_on (useWatchQrl q opts s) = wait_on s @ [Deferred_run (next_wid s)]
     \<and> triggers (useWatchQrl q opts s) = triggers s @
         (if is_server s then
            (case opts_run opts of
               Some Load \<Rightarrow> [On_load (getWatchHandlerQrl (next_wid s) (new_descriptor q (host s)
                               (WatchFlagsIsDirty OR WatchFlagsIsWatch) (seq_idx s)))]
             | Some Visible \<Rightarrow> [On_visible (getWatchHandlerQrl (next_wid s) (new_descriptor q (host s)
                               (WatchFlagsIsDirty OR WatchFlagsIsWatch) (seq_idx s)))]
             | None \<Rightarrow> [])
          else [])"
  using assms
  by (auto simp add: hook_taken_def useWatchQrl_def hook_defs split: option.split run_option.split)

theorem useWatchQrl_registers_witness:
  "\<not> hook_taken demo_hstate \<and>
   wait_on (useWatchQrl demo_qrl (Some \<lparr>run = Some Load\<rparr>) demo_hstate) = [Deferred_run 0] \<and>
   triggers (useWatchQrl demo_qrl (Some \<lparr>run = Some Load\<rparr>) demo_hstate) =
     [On_load (getWatchHandlerQrl 0 (new_descriptor demo_qrl 0 (WatchFlagsIsDirty OR WatchFlagsIsWatch) 0))]"
proof -
  have h: "\<not> hook_taken demo_hstate" by (simp add: hook_taken_def demo_hstate_def slot_truthy_def)
  from useWatchQrl_registers [OF h, of demo_qrl "Some \<lparr>run = Some Load\<rparr>"] show ?thesis
    using h by (simp add: demo_hstate_def opts_run_def)
qed

text \<open>C12 (environment gates of the mount hooks): at a fresh call site the server mount
  invokes its function exactly on the server, the client mount exactly on the client, and
  the generic mount in both; at a taken call site none of them invokes anything.\<close>

theorem mount_gates:
  "wait_on (useServerMountQrl mq s) =
     wait_on s @ (if \<not> hook_taken s \<and> is_server s then [Mount_invoked mq] else []) \<and>
   wait_on (useClientMountQrl mq s) =
     wait_on s @ (if \<not> hook_taken s \<and> \<not> is_server s then [Mount_invoked mq] else []) \<and>
   wait_on (useMountQrl mq s) = wait_on s @ (if \<not> hook_taken s then [Mount_invoked mq] else [])"
  by (simp add: hook_taken_def useServerMountQrl_def useClientMountQrl_def useMountQrl_def hook_defs)

text \<open>C13: \<open>useClientEffectQrl\<close> at a fresh call site allocates a descriptor flagged
  \<open>IsEffect\<close> alone (not dirty), registers it on both platforms with the requested trigger,
  \<open>'visible'\<close> when none is given, and queues no run of its own.\<close>

theorem useClientEffectQrl_registers:
  assumes "\<not> hook_taken s"
  shows "desc (rt (useClientEffectQrl q opts s)) (next_wid s) =
           new_descriptor q (host s) WatchFlagsIsEffect (seq_idx s)
     \<and> wait_on (useClientEffectQrl q opts s) = wait_on s
     \<and> triggers (useClientEffectQrl q opts s) = triggers s @
         [(case opts_run opts of Some Load \<Rightarrow> On_load | _ \<Rightarrow> On_visible)
            (getWatchHandlerQrl (next_wid s) (new_descriptor q (host s) WatchFlagsIsEffect (seq_idx s)))]"
  using assms
  by (auto simp add: hook_taken_def useClientEffectQrl_def hook_defs split: option.split run_option.split)

theorem useClientEffectQrl_registers_witness:
  "\<not> hook_taken demo_hstate \<and>
   triggers (useClientEffectQrl demo_qrl None demo_hstate) =
     [On_visible (getWatchHandlerQrl 0 (new_descriptor demo_qrl 0 WatchFlagsIsEffect 0))]"
proof -
  have h: "\<not> hook_taken demo_hstate" by (simp add: hook_taken_def demo_hstate_def slot_truthy_def)
  from useClientEffectQrl_registers [OF h, of demo_qrl None] show ?thesis
    using h by (simp add: demo_hstate_def opts_run_def)
qed

text \<open>What the two deferred registrars do to the runtime: at a fresh call site they add
  exactly the new descriptor to the heap.\<close>

lemma useWatchQrl_rt:
  "\<not> hook_taken s \<Longrightarrow> rt (useWatchQrl q opts s) =
     (rt s)\<lparr>desc := (desc (rt s))(next_wid s :=
        new_descriptor q (host s) (WatchFlagsIsDirty OR WatchFlagsIsWatch) (seq_idx s))\<rparr>"
  by (simp add: hook_taken_def useWatchQrl_def hook_defs split: option.split run_option.split)

lemma useClientEffectQrl_rt:
  "\<not> hook_taken s \<Longrightarrow> rt (useClientEffectQrl q opts s) =
     (rt s)\<lparr>desc := (desc (rt s))(next_wid s := new_descriptor q (host s) WatchFlagsIsEffect (seq_idx s))\<rparr>"
  by (simp add: hook_taken_def useClientEffectQrl_def hook_defs split: option.split run_option.split)

lemma useClientEffectQrl_trigger:
  "\<not> hook_taken s \<Longrightarrow> \<exists>tr. triggers (useClientEffectQrl q opts s) = triggers s @ [tr] \<and>
     tr \<in> {On_load (getWatchHandlerQrl (next_wid s) (new_descriptor q (host s) WatchFlagsIsEffect (seq_idx s))),
            On_visible (getWatchHandlerQrl (next_wid s) (new_descriptor q (host s) WatchFlagsIsEffect (seq_idx s)))}"
  by (auto simp add: hook_taken_def useClientEffectQrl_def hook_defs split: option.split run_option.split)

text \<open>What one hook does to the runtime: nothing, or it stores a descriptor with no run at
  the next free id.\<close>

lemma apply_hook_rt:
  "(rt (apply_hook h s) = rt s \<and> next_wid (apply_hook h s) = next_wid s)
   \<or> (w_running (desc (rt (apply_hook h s)) (next_wid s)) = None
      \<and> rt (apply_hook h s) = (rt s)\<lparr>desc := (desc (rt s))(next_wid s := desc (rt (apply_hook h s)) (next_wid s))\<rparr>
      \<and> next_wid (apply_hook h s) = Suc (next_wid s))"
  by (cases h; cases "hook_taken s";
      auto simp add: hook_taken_def useWatchQrl_def useClientEffectQrl_def useServerMountQrl_def
        useClientMountQrl_def useMountQrl_def hook_defs split: option.split run_option.split)

text \<open>The deferred first run \<open>useWatchQrl\<close> queues at a fresh call site.\<close>

lemma useWatchQrl_registers_wait:
  "\<not> hook_taken s \<Longrightarrow> wait_on (useWatchQrl q opts s) = wait_on s @ [Deferred_run (next_wid s)]"
  by (simp add: hook_taken_def useWatchQrl_def hook_defs split: option.split run_option.split)

text \<open>The registrars give a new descriptor one of two well-formed flag words, so a render
  keeps every flag word well formed.\<close>

lemma apply_hook_flags:
  "w_f (desc (rt (apply_hook h s)) w) = w_f (desc (rt s) w)
   \<or> w_f (desc (rt (apply_hook h s)) w) \<in> {WatchFlagsIsDirty OR WatchFlagsIsWatch, WatchFlagsIsEffect}"
  by (cases h; cases "hook_taken s";
      auto simp add: hook_taken_def useWatchQrl_def useClientEffectQrl_def useServerMountQrl_def
        useClientMountQrl_def useMountQrl_def hook_defs split: option.split run_option.split)

lemma render_flags_wf: "desc_wf (rt s) \<Longrightarrow> desc_wf (rt (render hs s))"
proof -
  have "desc_wf (rt (fold apply_hook hs t))" if "desc_wf (rt t)" for t
    using that
  proof (induction hs arbitrary: t)
    case (Cons h hs)
    have "desc_wf (rt (apply_hook h t))"
      unfolding desc_wf_def
    proof
      fix w
      show "flags_wf (w_f (desc (rt (apply_hook h t)) w))"
        using apply_hook_flags [of h t w] Cons.prems flags_wf_new by (auto simp add: desc_wf_def)
    qed
    with Cons.IH show ?case by simp
  qed simp
  moreover assume "desc_wf (rt s)"
  ultimately show ?thesis by (simp add: render_def)
qed

lemma new_descriptor_dirty:
  "is_dirty (new_descriptor q e (WatchFlagsIsDirty OR WatchFlagsIsWatch) i)"
  "\<not> is_dirty (new_descriptor q e WatchFlagsIsEffect i)"
  "w_running (new_descriptor q e fl i) = None"
  by (simp_all add: is_dirty_def new_descriptor_def has_flag_def watch_flag_defs single_bit_def)

text \<open>The platform only decides what a hook adds to the wait list and to the run triggers:
  two hook states that agree on everything else still agree after a hook.\<close>

lemma platform_frame [simp]:
  "rt (useRunWatch w r s) = rt s" "ectx (useRunWatch w r s) = ectx s"
  "observed (useRunWatch w r s) = observed s" "next_wid (useRunWatch w r s) = next_wid s"
  "observer (useRunWatch w r s) = observer s" "host (useRunWatch w r s) = host s"
  "rt (useWaitOn x s) = rt s" "ectx (useWaitOn x s) = ectx s"
  "observed (useWaitOn x s) = observed s" "next_wid (useWaitOn x s) = next_wid s"
  by (simp_all add: useRunWatch_def useWaitOn_def register_trigger_def split: option.split run_option.split)

lemma apply_hook_platform:
  assumes "rt t1 = rt t2" "ectx t1 = ectx t2" "host t1 = host t2" "seq_idx t1 = seq_idx t2"
    "observer t1 = observer t2" "observed t1 = observed t2" "next_wid t1 = next_wid t2"
  shows "rt (apply_hook h t1) = rt (apply_hook h t2) \<and> ectx (apply_hook h t1) = ectx (apply_hook h t2)
    \<and> observed (apply_hook h t1) = observed (apply_hook h t2)
    \<and> next_wid (apply_hook h t1) = next_wid (apply_hook h t2)"
proof (cases h)
  case (Use_watch q opts)
  then show ?thesis using assms
    by (simp add: useWatchQrl_def useSequentialScope_def setWatch_def alloc_watch_def push_watch_def Let_def)
next
  case (Use_client_effect q opts)
  then show ?thesis using assms
    by (simp add: useClientEffectQrl_def useSequentialScope_def setWatch_def alloc_watch_def push_watch_def Let_def)
qed (simp_all add: assms useServerMountQrl_def useClientMountQrl_def useMountQrl_def useSequentialScope_def
      setWatch_def Let_def)

lemma fold_hooks_platform:
  assumes "rt t1 = rt t2" "ectx t1 = ectx t2" "host t1 = host t2" "seq_idx t1 = seq_idx t2"
    "observer t1 = observer t2" "observed t1 = observed t2" "next_wid t1 = next_wid t2"
  shows "rt (fold apply_hook hs t1) = rt (fold apply_hook hs t2)
    \<and> ectx (fold apply_hook hs t1) = ectx (fold apply_hook hs t2)
    \<and> observed (fold apply_hook hs t1) = observed (fold apply_hook hs t2)
    \<and> next_wid (fold apply_hook hs t1) = next_wid (fold apply_hook hs t2)"
  using assms
proof (induction hs arbitrary: t1 t2)
  case (Cons h hs)
  have "rt (apply_hook h t1) = rt (apply_hook h t2) \<and> ectx (apply_hook h t1) = ectx (apply_hook h t2)
    \<and> observed (apply_hook h t1) = observed (apply_hook h t2)
    \<and> next_wid (apply_hook h t1) = next_wid (apply_hook h t2)" by (rule apply_hook_platform [OF Cons.prems])
  then show ?case using Cons.IH [of "apply_hook h t1" "apply_hook h t2"] Cons.prems(3-5) by simp
qed simp

text \<open>C34 (resumability): the descriptors, the element contexts and the observed hosts a
  render registers do not depend on the platform. The server and the client register the
  same watches with the same flags at the same call sites; they differ only in the wait
  list and in the run triggers.\<close>

theorem render_platform_independent:
  "rt (render hs (s\<lparr>is_server := True\<rparr>)) = rt (render hs (s\<lparr>is_server := False\<rparr>))
   \<and> ectx (render hs (s\<lparr>is_server := True\<rparr>)) = ectx (render hs (s\<lparr>is_server := False\<rparr>))
   \<and> observed (render hs (s\<lparr>is_server := True\<rparr>)) = observed (render hs (s\<lparr>is_server := False\<rparr>))
   \<and> next_wid (render hs (s\<lparr>is_server := True\<rparr>)) = next_wid (render hs (s\<lparr>is_server := False\<rparr>))"
  unfolding render_def by (rule fold_hooks_platform) simp_all

end
