(* ===== verification/Examples.thy ===== *)
theory Examples
  imports Scheduler Registrars
begin

text \<open>
  The components of the documentation comments of \<open>use-watch.ts\<close>, written with the
  \<open>$\<close> entry points as in the source: the \<open>Cmp\<close> of \<open>useWatch$\<close> (a double-count
  watch and a debouncer watch, lines 172--205), the \<open>Timer\<close> of \<open>useClientEffect$\<close>
  (lines 218--236) and the \<open>Cmp\<close> of the \<open>Tracker\<close> (lines 618--635). The optimizer
  extracts each closure to a symbol of the component's chunk; a closure is named by a
  constructor of \<open>closure\<close>, \<open>closure_qrl\<close> is what \<open>$\<close> gives for it, and
  \<open>example_env\<close> resolves each symbol back to the body. A timer callback runs outside the
  bodies, as a store write of the environment (\<open>Mutate\<close>); clearing the timer is the
  returned cleanup.
\<close>

datatype closure = Double_count | Debouncer | Timer_effect

definition closure_qrl :: "closure \<Rightarrow> qrl" where
  "closure_qrl c = \<lparr>q_chunk = ''cmp.js'',
     q_symbol = (case c of Double_count \<Rightarrow> ''Cmp_useWatch_0'' | Debouncer \<Rightarrow> ''Cmp_useWatch_1''
                 | Timer_effect \<Rightarrow> ''Timer_useClientEffect''),
     q_capture_ref = [], q_ref_symbol = None\<rparr>"

subsection \<open>The bodies\<close>

text \<open>\<open>useWatch$((track) => { const count = track(store, 'count'); store.doubleCount = 2 * count; })\<close>\<close>

definition double_count_watch :: watch_fn where
  "double_count_watch =
     \<lparr>script = [Track (Proxy 0) (Some ''count''), Write 0 ''doubleCount'' (\<lambda>st. 2 * the (st 0 ''count''))],
      result = Sync Ret_undefined\<rparr>"

text \<open>The debouncer: it tracks \<open>doubleCount\<close>, starts a timer and returns
  \<open>() => clearTimeout(timer)\<close>, the cleanup 0.\<close>

definition debouncer_watch :: watch_fn where
  "debouncer_watch = \<lparr>script = [Track (Proxy 0) (Some ''doubleCount'')], result = Sync (Ret_fn 0)\<rparr>"

text \<open>The timer effect: it starts an interval and returns \<open>() => clearInterval(timer)\<close>,
  the cleanup 1; it tracks nothing.\<close>

definition timer_effect_fn :: watch_fn where
  "timer_effect_fn = \<lparr>script = [], result = Sync (Ret_fn 1)\<rparr>"

definition example_env :: env where
  "example_env =
     \<lparr>fn_of = (\<lambda>(ch, sym). if sym = ''Cmp_useWatch_0'' then double_count_watch
                          else if sym = ''Cmp_useWatch_1'' then debouncer_watch else timer_effect_fn),
      cleanup_throws = (\<lambda>_. False), qrl_throws = (\<lambda>_. False)\<rparr>"

subsection \<open>The components\<close>

text \<open>The stores the components create with \<open>useStore\<close>, each as target 0:
  \<open>{count: 0, doubleCount: 0, debounced: 0}\<close>, \<open>{count: 0}\<close> and
  \<open>{count: 0, doubleCount: 0}\<close>.\<close>

definition cmp_store :: store where
  "cmp_store = (\<lambda>_. Map.empty)(0 := [''count'' \<mapsto> 0, ''doubleCount'' \<mapsto> 0, ''debounced'' \<mapsto> 0])"

definition timer_store :: store where
  "timer_store = (\<lambda>_. Map.empty)(0 := [''count'' \<mapsto> 0])"

definition tracker_store :: store where
  "tracker_store = (\<lambda>_. Map.empty)(0 := [''count'' \<mapsto> 0, ''doubleCount'' \<mapsto> 0])"

definition cmp_component :: "hstate \<Rightarrow> hstate" where
  "cmp_component s =
     useWatch_dollar closure_qrl Debouncer None (useWatch_dollar closure_qrl Double_count None s)"

definition timer_component :: "hstate \<Rightarrow> hstate" where
  "timer_component s = useClientEffect_dollar closure_qrl Timer_effect None s"

definition tracker_component :: "hstate \<Rightarrow> hstate" where
  "tracker_component s = useWatch_dollar closure_qrl Double_count None s"

text \<open>A host element 0 before its first render, with the store \<open>st\<close> created;
  \<open>server\<close> tells the platform.\<close>

definition example_hstate :: "bool \<Rightarrow> store \<Rightarrow> hstate" where
  "example_hstate server st =
     \<lparr>rt = \<lparr>desc = (\<lambda>_. new_descriptor (closure_qrl Double_count) 0 0 0), store = st, subs = {},
            runs = Map.empty, next_pid = 0, events = []\<rparr>,
      ectx = (\<lambda>_. \<lparr>seq = Map.empty, watches = []\<rparr>), host = 0, seq_idx = 0, wait_on = [],
      triggers = [], is_server = server, observer = False, observed = [], next_wid = 0\<rparr>"

text \<open>
  \<open>useWaitOn(Promise.resolve().then(() => runWatch(watch, containerState)))\<close>: each
  deferred first run the render queued becomes a scheduler call on its descriptor, in the
  order queued; mount invocations run no watch.
\<close>

fun deferred_events :: "wait list \<Rightarrow> ev list" where
  "deferred_events [] = []"
| "deferred_events (Deferred_run w # ws) = Sched w # deferred_events ws"
| "deferred_events (Mount_invoked q # ws) = deferred_events ws"


text \<open>The Tracker component's button, \<open>onClick$={() => store.count++}\<close>, clicked with the
  successive values of \<open>count\<close>, each click followed by the scheduler's call of the now
  dirty watch and the reaction of its chained run.\<close>

fun click_trace :: "pid \<Rightarrow> int list \<Rightarrow> ev list" where
  "click_trace p [] = []"
| "click_trace p (v # vs) = Mutate 0 ''count'' v # Sched 0 # Fire p # click_trace (Suc p) vs"

text \<open>The state of the Tracker component between clicks: \<open>doubleCount\<close> is twice
  \<open>count\<close>, the watch is clean, subscribed to \<open>count\<close> alone, and its last run is
  fulfilled.\<close>

definition tracker_inv :: "rstate \<Rightarrow> pid \<Rightarrow> int \<Rightarrow> bool" where
  "tracker_inv s p c \<longleftrightarrow> store s 0 ''count'' = Some c \<and> store s 0 ''doubleCount'' = Some (2 * c)
     \<and> subs_of (subs s) 0 = {(0, Some ''count'')} \<and> \<not> is_dirty (desc s 0) \<and> w_destroy (desc s 0) = None
     \<and> w_qrl (desc s 0) = closure_qrl Double_count \<and> next_pid s = Suc p
     \<and> w_running (desc s 0) = Some p \<and> runs s p = Some \<lparr>owner = 0, phase = Fulfilled\<rparr>"

text \<open>The useWatch example's \<open>count\<close> written from outside with successive values, as
  in "changes to \<open>state.count\<close>" of its documentation. Each write is followed by the
  scheduler's calls of the watches it dirties and the reactions of their chained runs:
  first the double-count watch, whose write of \<open>doubleCount\<close> dirties the debouncer,
  then the debouncer.\<close>

fun count_writes :: "pid \<Rightarrow> int list \<Rightarrow> ev list" where
  "count_writes p [] = []"
| "count_writes p (v # vs) =
     Mutate 0 ''count'' v # Sched 0 # Fire p # Sched 1 # Fire (Suc p) # count_writes (Suc (Suc p)) vs"

text \<open>The calls the component makes for \<open>n\<close> such writes: per write, the double-count
  body, then the debouncer's \<open>clearTimeout\<close> cleanup and its body.\<close>

fun debounce_log :: "pid \<Rightarrow> nat \<Rightarrow> event list" where
  "debounce_log p 0 = []"
| "debounce_log p (Suc n) =
     [Subs_cleared 0, Body_invoked 0 p, Cleanup_called 1 0, Subs_cleared 1, Body_invoked 1 (Suc p)]
     @ debounce_log (Suc (Suc p)) n"

text \<open>The state of the useWatch example between writes: \<open>doubleCount\<close> is twice
  \<open>count\<close>, both watches are clean and subscribed to their one property, the debouncer
  holds its cleanup, and the last run of each is fulfilled.\<close>

definition cmp_inv :: "rstate \<Rightarrow> int \<Rightarrow> bool" where
  "cmp_inv s c \<longleftrightarrow> store s 0 ''count'' = Some c \<and> store s 0 ''doubleCount'' = Some (2 * c)
     \<and> subs_of (subs s) 0 = {(0, Some ''count'')} \<and> subs_of (subs s) 1 = {(0, Some ''doubleCount'')}
     \<and> \<not> is_dirty (desc s 0) \<and> \<not> is_dirty (desc s 1)
     \<and> w_destroy (desc s 0) = None \<and> w_destroy (desc s 1) = Some 0
     \<and> w_qrl (desc s 0) = closure_qrl Double_count \<and> w_qrl (desc s 1) = closure_qrl Debouncer
     \<and> (\<exists>q. w_running (desc s 0) = Some q \<and> q < next_pid s \<and> runs s q = Some \<lparr>owner = 0, phase = Fulfilled\<rparr>)
     \<and> (\<exists>q. w_running (desc s 1) = Some q \<and> q < next_pid s \<and> runs s q = Some \<lparr>owner = 1, phase = Fulfilled\<rparr>)"

subsection \<open>Properties of the documented components\<close>

lemmas example_defs = cmp_component_def timer_component_def tracker_component_def example_hstate_def
  closure_qrl_def example_env_def double_count_watch_def debouncer_watch_def timer_effect_fn_def
  cmp_store_def timer_store_def tracker_store_def dollar_defs useWatchQrl_def useClientEffectQrl_def hook_defs slot_truthy_def opts_run_def

text \<open>A rerun of the double-count watch: it reads \<open>count\<close>, is subscribed to it
  alone, and writes \<open>doubleCount\<close>.\<close>

lemma double_count_rerun:
  assumes "w_qrl (desc s 0) = closure_qrl Double_count" "is_dirty (desc s 0)"
    "w_running (desc s 0) = Some q" "runs s q = Some rq" "phase rq = Fulfilled" "q < next_pid s"
    "w_destroy (desc s 0) = None" "store s 0 ''count'' = Some v"
  shows "exec_events example_env [Sched 0, Fire (next_pid s)] s =
     Some (set_run (next_pid s) \<lparr>owner = 0, phase = Fulfilled\<rparr>
       (write_prop 0 ''doubleCount'' (2 * v)
         (s\<lparr>desc := (desc s)(0 := (desc s 0)\<lparr>w_f := w_f (desc s 0) AND NOT WatchFlagsIsDirty,
                                            w_running := Some (next_pid s)\<rparr>),
            runs := (runs s)(next_pid s \<mapsto> \<lparr>owner = 0, phase = Blocked q\<rparr>),
            next_pid := Suc (next_pid s),
            events := events s @ [Subs_cleared 0, Body_invoked 0 (next_pid s)],
            subs := addSub 0 0 (Some ''count'') (clearSub 0 (subs s))\<rparr>)))"
  using assms(1,7,8)
  by (subst sched_fire_chained [OF assms(2-6)]) (simp add: watch_cont_unfold body_of_def example_env_def closure_qrl_def double_count_watch_def
      cleanupWatch_def emit_def track_Proxy prop_truthy_def store_return_def)

text \<open>A rerun of the debouncer: it first calls the \<open>clearTimeout\<close> cleanup of its previous
  run, reads \<open>doubleCount\<close>, is subscribed to it alone, and stores the new cleanup.\<close>

lemma debouncer_rerun:
  assumes "w_qrl (desc s 1) = closure_qrl Debouncer" "is_dirty (desc s 1)"
    "w_running (desc s 1) = Some q" "runs s q = Some rq" "phase rq = Fulfilled" "q < next_pid s"
    "w_destroy (desc s 1) = Some 0"
  shows "exec_events example_env [Sched 1, Fire (next_pid s)] s =
     Some (set_run (next_pid s) \<lparr>owner = 1, phase = Fulfilled\<rparr>
         (s\<lparr>desc := (desc s)(1 := (desc s 1)\<lparr>w_f := w_f (desc s 1) AND NOT WatchFlagsIsDirty,
                                            w_running := Some (next_pid s), w_destroy := Some 0\<rparr>),
            runs := (runs s)(next_pid s \<mapsto> \<lparr>owner = 1, phase = Blocked q\<rparr>),
            next_pid := Suc (next_pid s),
            events := events s @ [Cleanup_called 1 0, Subs_cleared 1, Body_invoked 1 (next_pid s)],
            subs := addSub 1 0 (Some ''doubleCount'') (clearSub 1 (subs s))\<rparr>))"
  using assms(1,7)
  by (subst sched_fire_chained [OF assms(2-6)]) (simp add: watch_cont_unfold body_of_def example_env_def closure_qrl_def debouncer_watch_def
      cleanupWatch_def emit_def track_Proxy prop_truthy_def store_return_def upd_desc_def fun_eq_iff)

lemma cmp_update:
  assumes inv: "cmp_inv s c"
  shows "\<exists>s'. exec_events example_env [Mutate 0 ''count'' v, Sched 0, Fire (next_pid s), Sched 1, Fire (Suc (next_pid s))] s = Some s'
           \<and> cmp_inv s' v \<and> events s' = events s @ debounce_log (next_pid s) 1
           \<and> next_pid s' = Suc (Suc (next_pid s))"
proof -
  let ?n = "next_pid s"
  obtain q0 q1 where q0: "w_running (desc s 0) = Some q0" "q0 < ?n" "runs s q0 = Some \<lparr>owner = 0, phase = Fulfilled\<rparr>"
    and q1: "w_running (desc s 1) = Some q1" "q1 < ?n" "runs s q1 = Some \<lparr>owner = 1, phase = Fulfilled\<rparr>"
    using inv by (auto simp add: cmp_inv_def)
  let ?s1 = "write_prop 0 ''count'' v s"
  have d10: "desc ?s1 0 = notifyWatch (desc s 0)" and d11: "desc ?s1 1 = desc s 1"
    using inv by (simp_all add: write_prop_desc cmp_inv_def is_subscribed_subs_of)
  have st1: "store ?s1 0 ''count'' = Some v" by (simp add: write_prop_store write_store_def)
  let ?T = "?s1\<lparr>desc := (desc ?s1)(0 := (desc ?s1 0)\<lparr>w_f := w_f (desc ?s1 0) AND NOT WatchFlagsIsDirty,
                                            w_running := Some ?n\<rparr>),
            runs := (runs ?s1)(?n \<mapsto> \<lparr>owner = 0, phase = Blocked q0\<rparr>),
            next_pid := Suc ?n,
            events := events ?s1 @ [Subs_cleared 0, Body_invoked 0 ?n],
            subs := addSub 0 0 (Some ''count'') (clearSub 0 (subs ?s1))\<rparr>"
  let ?s2 = "set_run ?n \<lparr>owner = 0, phase = Fulfilled\<rparr> (write_prop 0 ''doubleCount'' (2 * v) ?T)"
  have e2: "exec_events example_env [Sched 0, Fire ?n] ?s1 = Some ?s2"
    using double_count_rerun [of ?s1 q0 "\<lparr>owner = 0, phase = Fulfilled\<rparr>" v] inv q0 d10 st1
    by (simp add: cmp_inv_def)
  have so0: "subs_of (subs ?T) 0 = {(0, Some ''count'')}" and so1: "subs_of (subs ?T) 1 = {(0, Some ''doubleCount'')}"
    using inv by (simp_all add: cmp_inv_def)
  have d20: "desc ?s2 0 = desc ?T 0" and d21: "desc ?s2 1 = notifyWatch (desc s 1)"
    using so0 so1 d11 by (simp_all add: write_prop_desc is_subscribed_subs_of)
  have nd20: "\<not> is_dirty (desc ?s2 0)" using d20 d10 by (simp add: is_dirty_def notifyWatch_def flag_simps)
  let ?U = "?s2\<lparr>desc := (desc ?s2)(1 := (desc ?s2 1)\<lparr>w_f := w_f (desc ?s2 1) AND NOT WatchFlagsIsDirty,
                                            w_running := Some (Suc ?n), w_destroy := Some 0\<rparr>),
            runs := (runs ?s2)(Suc ?n \<mapsto> \<lparr>owner = 1, phase = Blocked q1\<rparr>),
            next_pid := Suc (Suc ?n),
            events := events ?s2 @ [Cleanup_called 1 0, Subs_cleared 1, Body_invoked 1 (Suc ?n)],
            subs := addSub 1 0 (Some ''doubleCount'') (clearSub 1 (subs ?s2))\<rparr>"
  let ?s3 = "set_run (Suc ?n) \<lparr>owner = 1, phase = Fulfilled\<rparr> ?U"
  have r21: "runs ?s2 q1 = Some \<lparr>owner = 1, phase = Fulfilled\<rparr>" using q1 by (simp add: write_prop_def)
  have e3: "exec_events example_env [Sched 1, Fire (Suc ?n)] ?s2 = Some ?s3"
    using debouncer_rerun [of ?s2 q1 "\<lparr>owner = 1, phase = Fulfilled\<rparr>"] inv q1 d21 r21
    by (simp add: cmp_inv_def write_prop_def)
  have "cmp_inv ?s3 v"
    using inv nd20 d20 d21 so0 so1
    by (simp add: cmp_inv_def write_prop_store write_store_def is_dirty_def notifyWatch_def flag_simps)
  moreover have "exec_events example_env [Mutate 0 ''count'' v, Sched 0, Fire ?n, Sched 1, Fire (Suc ?n)] s = Some ?s3"
    using e2 e3 exec_events_append [of example_env "[Mutate 0 ''count'' v, Sched 0, Fire ?n]" "[Sched 1, Fire (Suc ?n)]" s]
      exec_events_append [of example_env "[Mutate 0 ''count'' v]" "[Sched 0, Fire ?n]" s]
    by simp
  moreover have "events ?s3 = events s @ debounce_log ?n 1" by simp
  ultimately show ?thesis by simp
qed

lemma cmp_updates_inv:
  "cmp_inv s c \<Longrightarrow> \<exists>s'. exec_events example_env (count_writes (next_pid s) vs) s = Some s'
      \<and> cmp_inv s' (last (c # vs)) \<and> events s' = events s @ debounce_log (next_pid s) (length vs)"
proof (induction vs arbitrary: s c)
  case (Cons v vs)
  let ?n = "next_pid s"
  obtain s1 where s1: "exec_events example_env [Mutate 0 ''count'' v, Sched 0, Fire ?n, Sched 1, Fire (Suc ?n)] s = Some s1"
    "cmp_inv s1 v" "events s1 = events s @ debounce_log ?n 1" "next_pid s1 = Suc (Suc ?n)"
    using cmp_update [OF Cons.prems] by blast
  obtain s' where s': "exec_events example_env (count_writes (Suc (Suc ?n)) vs) s1 = Some s'"
    "cmp_inv s' (last (v # vs))" "events s' = events s1 @ debounce_log (Suc (Suc ?n)) (length vs)"
    using Cons.IH [OF s1(2)] s1(4) by auto
  have "count_writes ?n (v # vs) = [Mutate 0 ''count'' v, Sched 0, Fire ?n, Sched 1, Fire (Suc ?n)]
      @ count_writes (Suc (Suc ?n)) vs" by simp
  then have "exec_events example_env (count_writes ?n (v # vs)) s = Some s'"
    by (simp only: exec_events_append s1(1) option.case s'(1))
  moreover have "events s' = events s @ debounce_log ?n (length (v # vs))" using s1(3) s'(3) by simp
  ultimately show ?case using s'(2) by auto
qed simp

lemma tracker_click:
  assumes inv: "tracker_inv s p c"
  shows "\<exists>s'. exec_events example_env [Mutate 0 ''count'' v, Sched 0, Fire (Suc p)] s = Some s'
           \<and> tracker_inv s' (Suc p) v"
proof -
  let ?s1 = "write_prop 0 ''count'' v s"
  have d1: "desc ?s1 0 = notifyWatch (desc s 0)"
    using inv by (simp add: write_prop_desc tracker_inv_def is_subscribed_subs_of)
  let ?T = "?s1\<lparr>desc := (desc ?s1)(0 := (desc ?s1 0)\<lparr>w_f := w_f (desc ?s1 0) AND NOT WatchFlagsIsDirty,
                                            w_running := Some (Suc p)\<rparr>),
            runs := (runs ?s1)(Suc p \<mapsto> \<lparr>owner = 0, phase = Blocked p\<rparr>),
            next_pid := Suc (Suc p),
            events := events ?s1 @ [Subs_cleared 0, Body_invoked 0 (Suc p)],
            subs := addSub 0 0 (Some ''count'') (clearSub 0 (subs ?s1))\<rparr>"
  let ?s2 = "set_run (Suc p) \<lparr>owner = 0, phase = Fulfilled\<rparr> (write_prop 0 ''doubleCount'' (2 * v) ?T)"
  have n: "next_pid ?s1 = Suc p" using inv by (simp add: tracker_inv_def)
  have e: "exec_events example_env [Sched 0, Fire (Suc p)] ?s1 = Some ?s2"
    apply (rule double_count_rerun [of ?s1 p "\<lparr>owner = 0, phase = Fulfilled\<rparr>" v, unfolded n])
    using inv d1 by (simp_all add: tracker_inv_def write_prop_store write_store_def is_dirty_def notifyWatch_def flag_simps)
  have so: "subs_of (subs ?T) 0 = {(0, Some ''count'')}" by simp
  have d2: "desc ?s2 0 = desc ?T 0" using so by (simp add: write_prop_desc is_subscribed_subs_of)
  have "tracker_inv ?s2 (Suc p) v"
    using inv d1 d2 so by (simp add: tracker_inv_def write_prop_store write_store_def is_dirty_def notifyWatch_def flag_simps)
  moreover have "exec_events example_env [Mutate 0 ''count'' v, Sched 0, Fire (Suc p)] s = Some ?s2"
    using e exec_events_append [of example_env "[Mutate 0 ''count'' v]" "[Sched 0, Fire (Suc p)]" s] by simp
  ultimately show ?thesis by blast
qed

lemma tracker_clicks_inv:
  "tracker_inv s p c \<Longrightarrow> \<exists>s'. exec_events example_env (click_trace (Suc p) vs) s = Some s'
      \<and> tracker_inv s' (p + length vs) (last (c # vs))"
proof (induction vs arbitrary: s p c)
  case (Cons v vs)
  obtain s1 where s1: "exec_events example_env [Mutate 0 ''count'' v, Sched 0, Fire (Suc p)] s = Some s1"
    "tracker_inv s1 (Suc p) v"
    using tracker_click [OF Cons.prems] by blast
  obtain s' where "exec_events example_env (click_trace (Suc (Suc p)) vs) s1 = Some s'"
    "tracker_inv s' (Suc p + length vs) (last (v # vs))"
    using Cons.IH [OF s1(2)] by blast
  moreover have "click_trace (Suc p) (v # vs) = [Mutate 0 ''count'' v, Sched 0, Fire (Suc p)] @ click_trace (Suc (Suc p)) vs"
    by simp
  then have "exec_events example_env (click_trace (Suc p) (v # vs)) s = exec_events example_env (click_trace (Suc (Suc p)) vs) s1"
    by (simp only: exec_events_append s1(1) option.case)
  ultimately show ?case by simp
qed simp

text \<open>C27 (the documented \<open>Cmp\<close> of \<open>useWatch$\<close>): on either platform, after the
  render's two deferred runs and any sequence of writes of \<open>count\<close>, each followed by the
  reruns it causes, \<open>doubleCount\<close> is twice the last \<open>count\<close> and both watches are clean.
  Each write reruns the double-count watch, whose write of \<open>doubleCount\<close> reruns the
  debouncer, and every rerun of the debouncer is preceded by the call of the
  \<open>clearTimeout\<close> cleanup of its previous run, so at most one timer is pending.\<close>

theorem cmp_example_propagation:
  "\<exists>s'. exec_events example_env
          (deferred_events (wait_on (cmp_component (example_hstate srv cmp_store))) @ count_writes 2 vs)
          (rt (cmp_component (example_hstate srv cmp_store))) = Some s'
     \<and> store s' 0 ''doubleCount'' = Some (2 * last (0 # vs)) \<and> store s' 0 ''count'' = Some (last (0 # vs))
     \<and> \<not> is_dirty (desc s' 0) \<and> \<not> is_dirty (desc s' 1)
     \<and> events s' = [Subs_cleared 0, Body_invoked 0 0, Subs_cleared 1, Body_invoked 1 1] @ debounce_log 2 (length vs)"
proof -
  let ?h = "cmp_component (example_hstate srv cmp_store)"
  have "case exec_events example_env (deferred_events (wait_on ?h)) (rt ?h) of None \<Rightarrow> False
     | Some s0 \<Rightarrow> cmp_inv s0 0 \<and> events s0 = [Subs_cleared 0, Body_invoked 0 0, Subs_cleared 1, Body_invoked 1 1]
         \<and> next_pid s0 = 2"
    by (cases srv) (simp_all add: example_defs run_eval cmp_inv_def subs_of_def)
  then obtain s0 where e0: "exec_events example_env (deferred_events (wait_on ?h)) (rt ?h) = Some s0"
    and i0: "cmp_inv s0 0" and ev0: "events s0 = [Subs_cleared 0, Body_invoked 0 0, Subs_cleared 1, Body_invoked 1 1]"
    and n0: "next_pid s0 = 2"
    by (auto split: option.splits)
  obtain s' where "exec_events example_env (count_writes 2 vs) s0 = Some s'"
    "cmp_inv s' (last (0 # vs))" "events s' = events s0 @ debounce_log 2 (length vs)"
    using cmp_updates_inv [OF i0, of vs] n0 by auto
  then show ?thesis using e0 ev0 by (simp add: exec_events_append cmp_inv_def)
qed

text \<open>C28 (the documented \<open>Timer\<close> of \<open>useClientEffect$\<close>, "only runs in the
  client"): on either platform the render queues no run and the descriptor does not run
  on its own; it registers one visible trigger, whose handler makes the next scheduler
  call run the body once; any number of interval ticks writing \<open>count\<close> then never
  rerun it, because the body tracks nothing.\<close>

theorem timer_example_runs_once:
  "deferred_events (wait_on (timer_component (example_hstate srv timer_store))) = []
   \<and> runWatch example_env 0 (rt (timer_component (example_hstate srv timer_store)))
       = (rt (timer_component (example_hstate srv timer_store)), Resolved_now 0)
   \<and> triggers (timer_component (example_hstate srv timer_store)) =
       [On_visible (getWatchHandlerQrl 0 (new_descriptor (closure_qrl Timer_effect) 0 WatchFlagsIsEffect 0))]
   \<and> (\<forall>vs. \<exists>s'. exec_events example_env (map (Mutate 0 ''count'') vs @ [Sched 0])
            (fst (runWatch example_env 0 (handleWatch (getWatchHandlerQrl 0 (new_descriptor (closure_qrl Timer_effect) 0 WatchFlagsIsEffect 0))
                (rt (timer_component (example_hstate srv timer_store)))))) = Some s'
          \<and> events s' = [Subs_cleared 0, Body_invoked 0 0])"
proof -
  let ?h = "getWatchHandlerQrl 0 (new_descriptor (closure_qrl Timer_effect) 0 WatchFlagsIsEffect 0)"
  let ?s1 = "fst (runWatch example_env 0 (handleWatch ?h (rt (timer_component (example_hstate srv timer_store)))))"
  have a: "deferred_events (wait_on (timer_component (example_hstate srv timer_store))) = []
   \<and> runWatch example_env 0 (rt (timer_component (example_hstate srv timer_store)))
       = (rt (timer_component (example_hstate srv timer_store)), Resolved_now 0)
   \<and> triggers (timer_component (example_hstate srv timer_store)) = [On_visible ?h]"
    by (simp add: example_defs run_eval)
  have e: "events ?s1 = [Subs_cleared 0, Body_invoked 0 0]" and sb: "subs_of (subs ?s1) 0 = {}"
    and cl: "\<not> is_dirty (desc ?s1 0)"
    by (simp_all add: example_defs run_eval handleWatch_def getWatchHandlerQrl_def subs_of_def)
  have "\<exists>s'. exec_events example_env (map (Mutate 0 ''count'') vs @ [Sched 0]) ?s1 = Some s'
          \<and> events s' = [Subs_cleared 0, Body_invoked 0 0]" for vs
  proof -
    obtain s2 where s2: "exec_events example_env (map (Mutate 0 ''count'') vs) ?s1 = Some s2"
      "desc s2 0 = desc ?s1 0" "events s2 = events ?s1"
      using unsubscribed_writes [OF sb, of example_env 0 "''count''" vs] by blast
    have "exec_events example_env (map (Mutate 0 ''count'') vs @ [Sched 0]) ?s1 = exec_events example_env [Sched 0] s2"
      using s2(1) by (simp add: exec_events_append)
    then show ?thesis using s2 cl e by (simp add: runWatch_def is_dirty_def)
  qed
  with a show ?thesis by blast
qed

text \<open>C29 (the documented \<open>Cmp\<close> of the \<open>Tracker\<close>): for any sequence of clicks,
  each followed by the rerun it causes, the store ends with \<open>doubleCount\<close> twice the
  last \<open>count\<close>, the watch clean and subscribed to \<open>count\<close> alone.\<close>

theorem tracker_example_clicks:
  "\<exists>s'. exec_events example_env
          (deferred_events (wait_on (tracker_component (example_hstate srv tracker_store))) @ click_trace 1 vs)
          (rt (tracker_component (example_hstate srv tracker_store))) = Some s'
     \<and> store s' 0 ''doubleCount'' = Some (2 * last (0 # vs)) \<and> store s' 0 ''count'' = Some (last (0 # vs))
     \<and> \<not> is_dirty (desc s' 0) \<and> subs_of (subs s') 0 = {(0, Some ''count'')}"
proof -
  let ?s = "rt (tracker_component (example_hstate srv tracker_store))"
  have h: "\<not> hook_taken (example_hstate srv tracker_store)"
    by (simp add: hook_taken_def example_hstate_def slot_truthy_def)
  have d: "deferred_events (wait_on (tracker_component (example_hstate srv tracker_store))) = [Sched 0]"
    using useWatchQrl_registers_wait [OF h] by (simp add: tracker_component_def dollar_defs example_hstate_def)
  have r: "?s = (rt (example_hstate srv tracker_store))\<lparr>desc := (desc (rt (example_hstate srv tracker_store)))(0 :=
             new_descriptor (closure_qrl Double_count) 0 (WatchFlagsIsDirty OR WatchFlagsIsWatch) 0)\<rparr>"
    using useWatchQrl_rt [OF h] by (simp add: tracker_component_def dollar_defs example_hstate_def)
  have i: "tracker_inv (fst (runWatch example_env 0 ?s)) 0 0"
    unfolding r by (simp add: tracker_inv_def example_defs run_eval subs_of_def)
  obtain s' where "exec_events example_env (click_trace 1 vs) (fst (runWatch example_env 0 ?s)) = Some s'"
    "tracker_inv s' (length vs) (last (0 # vs))"
    using tracker_clicks_inv [OF i, of vs] by auto
  then show ?thesis using d by (simp add: tracker_inv_def)
qed

end
