(* ===== verification/Refinement.thy ===== *)
theory Refinement
  imports Scheduler
begin

text \<open>
  The effect runner against the specification of one run (spec section 4.2). The
  specification knows no promises: it runs steps 1--8 in one go. The runtime splits a
  run between the scheduler call, the reaction of a chained run and the settlement of
  the body's promise, and keeps the table of run promises and the \<open>running\<close> handle.
  Forgetting those (\<open>abs_state\<close>), the runtime carrying one run to its end computes the
  specification's run: a functional refinement \<open>abs (run s) = spec_run (abs s)\<close>.
\<close>

unbundle bit_operations_syntax

text \<open>The view of the runtime the specification has: descriptors without their
  \<open>running\<close> handle, and no promise table.\<close>

definition abs_state :: "rstate \<Rightarrow> rstate" where
  "abs_state s = s\<lparr>desc := (\<lambda>w. (desc s w)\<lparr>w_running := None\<rparr>), runs := Map.empty, next_pid := 0\<rparr>"

text \<open>Step 2 of the specification: \<open>IS_DIRTY\<close> is cleared.\<close>

definition clear_dirty :: "wid \<Rightarrow> rstate \<Rightarrow> rstate" where
  "clear_dirty w = upd_desc w (\<lambda>d. d\<lparr>w_f := w_f d AND NOT WatchFlagsIsDirty\<rparr>)"

text \<open>
  One run as the specification describes it (section 4.2), in order and without
  suspension: if dirty, clear the flag (2), call and forget the cleanup (4), clear the
  subscriptions (5), invoke the body with the tracker (6), and store a returned cleanup,
  once the body's result is available (7); a throw stops the body where it is.
\<close>

definition spec_run :: "env \<Rightarrow> wid \<Rightarrow> pid \<Rightarrow> rstate \<Rightarrow> rstate" where
  "spec_run env w p a =
     (if \<not> is_dirty (desc a w) then a
      else
        (let a1 = clear_dirty w a;
             a2 = cleanupWatch env w a1;
             a3 = emit [Subs_cleared w] (a2\<lparr>subs := clearSub w (subs a2)\<rparr>);
             fn = body_of env (desc a3 w)
         in case exec_script w (script fn) (emit [Body_invoked w p] a3) of
              (a4, Some e) \<Rightarrow> a4
            | (a4, None) \<Rightarrow>
                (case result fn of Sync r \<Rightarrow> store_return w r a4 | Async r \<Rightarrow> store_return w r a4
                 | Async_reject \<Rightarrow> a4)))"

text \<open>A body that neither throws nor passes a non-proxy to the tracker.\<close>

fun script_safe :: "action list \<Rightarrow> bool" where
  "script_safe [] = True"
| "script_safe (Track (Proxy t) p # as) = script_safe as"
| "script_safe (Track Plain p # as) = False"
| "script_safe (Write t p e # as) = script_safe as"
| "script_safe (Throw # as) = False"

text \<open>The events that carry one run to its end: the scheduler call, the reaction when the
  run is chained, and the settlement when the body returns a promise.\<close>

definition run_events :: "env \<Rightarrow> wid \<Rightarrow> rstate \<Rightarrow> ev list" where
  "run_events env w s =
     Sched w # (case w_running (desc s w) of None \<Rightarrow> [] | Some q \<Rightarrow> [Fire (next_pid s)])
     @ (case result (body_of env (desc s w)) of Sync r \<Rightarrow> [] | _ \<Rightarrow> [Settle (next_pid s)])"

text \<open>What the continuation reports for a body that does not throw.\<close>

definition cont_of :: "outcome \<Rightarrow> cont_result" where
  "cont_of r = (case r of Sync v \<Rightarrow> Cont_settled | Async v \<Rightarrow> Cont_pending (Some v) | Async_reject \<Rightarrow> Cont_pending None)"

subsection \<open>The abstraction commutes with the operations\<close>

lemma abs_state_simps [simp]:
  "abs_state (set_run p r s) = abs_state s"
  "abs_state (s\<lparr>next_pid := n\<rparr>) = abs_state s"
  "abs_state (upd_desc w (\<lambda>d. d\<lparr>w_running := x\<rparr>) s) = abs_state s"
  "abs_state (s\<lparr>subs := S\<rparr>) = (abs_state s)\<lparr>subs := S\<rparr>"
  "abs_state (emit es s) = emit es (abs_state s)"
  "subs (abs_state s) = subs s" "store (abs_state s) = store s" "events (abs_state s) = events s"
  "w_destroy (desc (abs_state s) w) = w_destroy (desc s w)" "w_qrl (desc (abs_state s) w) = w_qrl (desc s w)"
  "w_f (desc (abs_state s) w) = w_f (desc s w)"
  by (simp_all add: abs_state_def set_run_def upd_desc_def emit_def fun_eq_iff)

lemma abs_write_prop: "abs_state (write_prop t k v s) = write_prop t k v (abs_state s)"
  by (simp add: abs_state_def write_prop_def notifyWatch_def fun_eq_iff)

lemma abs_exec_script:
  "exec_script w as (abs_state s) = (abs_state (fst (exec_script w as s)), snd (exec_script w as s))"
proof (induction w as s rule: exec_script.induct)
  case (2 w obj p as s)
  then show ?case by (cases obj) (simp_all add: track_Proxy track_Plain)
next
  case (3 w t p e as s)
  then show ?case by (simp add: abs_write_prop)
qed simp_all


lemma abs_cleanupWatch: "abs_state (cleanupWatch env w s) = cleanupWatch env w (abs_state s)"
  by (simp add: cleanupWatch_def abs_state_def upd_desc_def emit_def fun_eq_iff split: option.split)

lemma abs_store_return: "abs_state (store_return w r s) = store_return w r (abs_state s)"
  by (simp add: store_return_def abs_state_def upd_desc_def fun_eq_iff split: ret.split)

lemma abs_clear_dirty: "abs_state (clear_dirty w s) = clear_dirty w (abs_state s)"
  by (simp add: clear_dirty_def abs_state_def upd_desc_def fun_eq_iff)

lemma abs_watch_cont:
  "watch_cont env w p (abs_state s) = (abs_state (fst (watch_cont env w p s)), snd (watch_cont env w p s))"
proof -
  let ?s2 = "emit [Subs_cleared w, Body_invoked w p] ((cleanupWatch env w s)\<lparr>subs := clearSub w (subs s)\<rparr>)"
  have b: "body_of env (desc (abs_state s) w) = body_of env (desc s w)" by (simp add: body_of_def)
  show ?thesis
    using abs_exec_script [of w "script (body_of env (desc s w))" ?s2]
    by (simp add: watch_cont_unfold b abs_store_return abs_cleanupWatch
        split: prod.split option.split outcome.split)
qed

lemma script_safe_exec: "script_safe as \<Longrightarrow> snd (exec_script w as s) = None"
proof (induction w as s rule: exec_script.induct)
  case (2 w obj p as s)
  then show ?case by (cases obj) (simp_all add: track_Proxy)
qed simp_all

lemma spec_run_cont:
  assumes "is_dirty (desc a w)"
  shows "spec_run env w p a =
           (case watch_cont env w p (clear_dirty w a) of
              (a', Cont_pending (Some r)) \<Rightarrow> store_return w r a'
            | (a', _) \<Rightarrow> a')"
  using assms
  by (simp add: spec_run_def watch_cont_unfold Let_def emit_def
      split: prod.split option.split outcome.split)


lemma watch_cont_safe:
  assumes "script_safe (script (body_of env (desc X w)))"
  shows "snd (watch_cont env w p X) = cont_of (result (body_of env (desc X w)))"
proof -
  let ?s2 = "emit [Subs_cleared w, Body_invoked w p] ((cleanupWatch env w X)\<lparr>subs := clearSub w (subs X)\<rparr>)"
  obtain s3 where "exec_script w (script (body_of env (desc X w))) ?s2 = (s3, None)"
    using script_safe_exec [OF assms, of w ?s2] by (metis prod.collapse)
  then show ?thesis by (simp add: watch_cont_unfold cont_of_def split: outcome.split)
qed

text \<open>The scheduler call and, for a chained run, the reaction: the continuation has run on
  a state whose abstraction is the abstraction with the dirty bit cleared.\<close>

lemma run_prefix:
  assumes "reach env s" "is_dirty (desc s w)"
    "case w_running (desc s w) of None \<Rightarrow> True | Some q \<Rightarrow> (\<exists>rq. runs s q = Some rq \<and> phase rq = Fulfilled)"
  shows "\<exists>X R. exec_events env (Sched w # (case w_running (desc s w) of None \<Rightarrow> [] | Some q \<Rightarrow> [Fire (next_pid s)])) s = Some R
           \<and> abs_state X = clear_dirty w (abs_state s) \<and> abs_state R = abs_state (fst (watch_cont env w (next_pid s) X))
           \<and> body_of env (desc X w) = body_of env (desc s w)
           \<and> (\<exists>ph. runs R = (runs (fst (watch_cont env w (next_pid s) X)))(next_pid s \<mapsto> \<lparr>owner = w, phase = ph\<rparr>)
                \<and> (snd (watch_cont env w (next_pid s) X) = Cont_settled \<longrightarrow> ph = Fulfilled)
                \<and> (\<forall>v. snd (watch_cont env w (next_pid s) X) = Cont_pending v \<longrightarrow> ph = Awaiting v))"
proof (cases "w_running (desc s w)")
  case None
  let ?X = "(clear_dirty w s)\<lparr>next_pid := Suc (next_pid s)\<rparr>"
  obtain X' c where wc: "watch_cont env w (next_pid s) ?X = (X', c)" by fastforce
  have r: "fst (runWatch env w s) = upd_desc w (\<lambda>d. d\<lparr>w_running := Some (next_pid s)\<rparr>)
             (set_run (next_pid s) \<lparr>owner = w, phase = executor_phase c\<rparr> X')"
    using assms(2) None wc by (simp add: runWatch_def is_dirty_def Let_def clear_dirty_def)
  have a: "abs_state ?X = clear_dirty w (abs_state s)" by (simp add: abs_clear_dirty)
  have b: "body_of env (desc ?X w) = body_of env (desc s w)"
    by (simp add: body_of_def clear_dirty_def)
  have e: "exec_events env (Sched w # (case w_running (desc s w) of None \<Rightarrow> [] | Some q \<Rightarrow> [Fire (next_pid s)])) s
           = Some (fst (runWatch env w s))" using None by simp
  have ab: "abs_state (fst (runWatch env w s)) = abs_state (fst (watch_cont env w (next_pid s) ?X))"
    using r wc by simp
  have ru: "runs (fst (runWatch env w s)) =
      (runs (fst (watch_cont env w (next_pid s) ?X)))(next_pid s \<mapsto> \<lparr>owner = w, phase = executor_phase c\<rparr>)"
    using r wc by (simp add: set_run_def upd_desc_def)
  have ph: "(snd (watch_cont env w (next_pid s) ?X) = Cont_settled \<longrightarrow> executor_phase c = Fulfilled)
      \<and> (\<forall>v. snd (watch_cont env w (next_pid s) ?X) = Cont_pending v \<longrightarrow> executor_phase c = Awaiting v)"
    using wc by auto
  show ?thesis using e a ab b ru ph by blast
next
  case (Some q)
  obtain rq where rq: "runs s q = Some rq" "phase rq = Fulfilled" using assms(3) Some by auto
  have q: "q < next_pid s" using reach_running_alloc [OF assms(1) Some] by blast
  let ?s1 = "fst (runWatch env w s)"
  have s1: "runWatch env w s =
     (s\<lparr>desc := (desc s)(w := (desc s w)\<lparr>w_f := w_f (desc s w) AND NOT WatchFlagsIsDirty,
                      w_running := Some (next_pid s)\<rparr>),
        runs := (runs s)(next_pid s \<mapsto> \<lparr>owner = w, phase = Blocked q\<rparr>),
        next_pid := Suc (next_pid s)\<rparr>,
      Run_promise (next_pid s))"
    by (rule runWatch_chained [OF assms(2) Some])
  have en: "fire_enabled ?s1 (next_pid s)" using s1 q rq by (simp add: fire_enabled_def)
  obtain X' c where wc: "watch_cont env w (next_pid s) ?s1 = (X', c)" by fastforce
  have f: "fire_run env (next_pid s) ?s1 = set_run (next_pid s) \<lparr>owner = w, phase = reaction_phase c\<rparr> X'"
    using s1 wc by (simp add: fire_run_def)
  have a: "abs_state ?s1 = clear_dirty w (abs_state s)"
    using s1 by (simp add: abs_state_def clear_dirty_def upd_desc_def fun_eq_iff)
  have b: "body_of env (desc ?s1 w) = body_of env (desc s w)" using s1 by (simp add: body_of_def)
  have e: "exec_events env (Sched w # (case w_running (desc s w) of None \<Rightarrow> [] | Some q \<Rightarrow> [Fire (next_pid s)])) s
           = Some (fire_run env (next_pid s) ?s1)" using Some en by simp
  have ab: "abs_state (fire_run env (next_pid s) ?s1) = abs_state (fst (watch_cont env w (next_pid s) ?s1))"
    using f wc by simp
  have ru: "runs (fire_run env (next_pid s) ?s1) =
      (runs (fst (watch_cont env w (next_pid s) ?s1)))(next_pid s \<mapsto> \<lparr>owner = w, phase = reaction_phase c\<rparr>)"
    using f wc by (simp add: set_run_def)
  have ph: "(snd (watch_cont env w (next_pid s) ?s1) = Cont_settled \<longrightarrow> reaction_phase c = Fulfilled)
      \<and> (\<forall>v. snd (watch_cont env w (next_pid s) ?s1) = Cont_pending v \<longrightarrow> reaction_phase c = Awaiting v)"
    using wc by auto
  show ?thesis using e a ab b ru ph by blast
qed


text \<open>The settlement of a run awaiting its body's promise: it is enabled, stores the
  cleanup the promise fulfils with, and ends the run fulfilled, or hung when the promise
  rejects.\<close>

lemma abs_settle_run:
  assumes "runs R p = Some \<lparr>owner = w, phase = Awaiting v\<rparr>"
  shows "settle_enabled R p
    \<and> abs_state (settle_run p R) = (case v of Some r \<Rightarrow> store_return w r (abs_state R) | None \<Rightarrow> abs_state R)
    \<and> runs (settle_run p R) p = Some \<lparr>owner = w, phase = (if v = None then Hung else Fulfilled)\<rparr>"
  using assms by (cases v) (simp_all add: settle_enabled_def settle_run_def abs_store_return)

text \<open>The events before the settlement, for a body that does not throw: their final state
  and the specification's run agree up to the cleanup a returned promise fulfils with, and
  the run waits for that promise exactly when the body returned one.\<close>

lemma run_prefix_safe:
  assumes "reach env s" "is_dirty (desc s w)"
    "case w_running (desc s w) of None \<Rightarrow> True | Some q \<Rightarrow> (\<exists>rq. runs s q = Some rq \<and> phase rq = Fulfilled)"
    "script_safe (script (body_of env (desc s w)))"
  shows "\<exists>R. exec_events env (Sched w # (case w_running (desc s w) of None \<Rightarrow> [] | Some q \<Rightarrow> [Fire (next_pid s)])) s = Some R
      \<and> runs R (next_pid s) = Some \<lparr>owner = w, phase = (case result (body_of env (desc s w)) of
            Sync r \<Rightarrow> Fulfilled | Async r \<Rightarrow> Awaiting (Some r) | Async_reject \<Rightarrow> Awaiting None)\<rparr>
      \<and> spec_run env w (next_pid s) (abs_state s) =
          (case result (body_of env (desc s w)) of Async r \<Rightarrow> store_return w r (abs_state R)
           | _ \<Rightarrow> abs_state R)"
proof -
  let ?p = "next_pid s"
  let ?fn = "body_of env (desc s w)"
  obtain X R ph where e: "exec_events env (Sched w # (case w_running (desc s w) of None \<Rightarrow> [] | Some q \<Rightarrow> [Fire ?p])) s = Some R"
    and a: "abs_state X = clear_dirty w (abs_state s)"
    and ab: "abs_state R = abs_state (fst (watch_cont env w ?p X))"
    and b: "body_of env (desc X w) = ?fn"
    and ru: "runs R = (runs (fst (watch_cont env w ?p X)))(?p \<mapsto> \<lparr>owner = w, phase = ph\<rparr>)"
    and ph1: "snd (watch_cont env w ?p X) = Cont_settled \<longrightarrow> ph = Fulfilled"
    and ph2: "\<forall>v. snd (watch_cont env w ?p X) = Cont_pending v \<longrightarrow> ph = Awaiting v"
    using run_prefix [OF assms(1-3)] by blast
  obtain X' c where wc: "watch_cont env w ?p X = (X', c)" by fastforce
  have c: "c = cont_of (result ?fn)"
    using watch_cont_safe [of env X w ?p] assms(4) b wc by simp
  have d: "is_dirty (desc (abs_state s) w)" using assms(2) by (simp add: is_dirty_def)
  have wc': "watch_cont env w ?p (clear_dirty w (abs_state s)) = (abs_state X', c)"
    using abs_watch_cont [of env w ?p X] a wc by simp
  have sp: "spec_run env w ?p (abs_state s) =
      (case c of Cont_pending (Some r) \<Rightarrow> store_return w r (abs_state X') | _ \<Rightarrow> abs_state X')"
    using spec_run_cont [OF d, of env ?p] wc' by (simp split: cont_result.split option.split)
  have "ph = (case result ?fn of Sync r \<Rightarrow> Fulfilled | Async r \<Rightarrow> Awaiting (Some r) | Async_reject \<Rightarrow> Awaiting None)"
    using ph1 ph2 wc c by (simp add: cont_of_def split: outcome.split)
  moreover have "spec_run env w ?p (abs_state s) =
      (case result ?fn of Async r \<Rightarrow> store_return w r (abs_state R) | _ \<Rightarrow> abs_state R)"
    using sp c ab wc by (simp add: cont_of_def split: outcome.split)
  ultimately show ?thesis using e ru by auto
qed

text \<open>C30 (the runtime refines the specification of a run): in a reachable state, for
  a dirty descriptor whose previous run, if any, is fulfilled, and a body that does not
  throw, the events of one run are enabled, the run's promise ends fulfilled (pending for
  ever when the body's promise rejects), and the abstraction of the final state is the
  specification's run applied to the abstraction of the initial one.\<close>

theorem run_refines_spec:
  assumes "reach env s" "is_dirty (desc s w)"
    "case w_running (desc s w) of None \<Rightarrow> True | Some q \<Rightarrow> (\<exists>rq. runs s q = Some rq \<and> phase rq = Fulfilled)"
    "script_safe (script (body_of env (desc s w)))"
  shows "\<exists>s'. exec_events env (run_events env w s) s = Some s'
      \<and> abs_state s' = spec_run env w (next_pid s) (abs_state s)
      \<and> runs s' (next_pid s) =
          Some \<lparr>owner = w, phase = (if result (body_of env (desc s w)) = Async_reject then Hung else Fulfilled)\<rparr>"
proof -
  let ?p = "next_pid s"
  let ?pre = "Sched w # (case w_running (desc s w) of None \<Rightarrow> [] | Some q \<Rightarrow> [Fire ?p])"
  obtain R where e: "exec_events env ?pre s = Some R"
    and ru: "runs R ?p = Some \<lparr>owner = w, phase = (case result (body_of env (desc s w)) of
            Sync r \<Rightarrow> Fulfilled | Async r \<Rightarrow> Awaiting (Some r) | Async_reject \<Rightarrow> Awaiting None)\<rparr>"
    and sp: "spec_run env w ?p (abs_state s) =
          (case result (body_of env (desc s w)) of Async r \<Rightarrow> store_return w r (abs_state R) | _ \<Rightarrow> abs_state R)"
    using run_prefix_safe [OF assms] by blast
  have ev: "run_events env w s = ?pre @ (case result (body_of env (desc s w)) of Sync r \<Rightarrow> [] | _ \<Rightarrow> [Settle ?p])"
    by (simp add: run_events_def split: option.split outcome.split)
  show ?thesis
  proof (cases "result (body_of env (desc s w))")
    case (Sync r)
    then show ?thesis using e ev ru sp by simp
  next
    case (Async r)
    then show ?thesis using e ev sp abs_settle_run [of R ?p w "Some r"] ru by (simp add: exec_events_append)
  next
    case Async_reject
    then show ?thesis using e ev sp abs_settle_run [of R ?p w None] ru by (simp add: exec_events_append)
  qed
qed


theorem run_refines_spec_witness:
  "reach demo_async_env demo_state \<and> is_dirty (desc demo_state 0) \<and>
   script_safe (script (body_of demo_async_env (desc demo_state 0))) \<and>
   (\<exists>s'. exec_events demo_async_env (run_events demo_async_env 0 demo_state) demo_state = Some s'
      \<and> abs_state s' = spec_run demo_async_env 0 0 (abs_state demo_state))"
proof -
  have r: "reach demo_async_env demo_state" by (rule reach.init [OF initial_demo_state])
  have d: "is_dirty (desc demo_state 0)" by (simp add: run_eval)
  have n: "case w_running (desc demo_state 0) of None \<Rightarrow> True
           | Some q \<Rightarrow> (\<exists>rq. runs demo_state q = Some rq \<and> phase rq = Fulfilled)"
    by (simp add: demo_defs)
  have sf: "script_safe (script (body_of demo_async_env (desc demo_state 0)))"
    by (simp add: run_eval)
  from run_refines_spec [OF r d n sf] r d sf show ?thesis by (auto simp add: demo_state_def)
qed

end
