(* ===== verification/Setup.thy ===== *)
theory Setup
  imports Refinement Registrars
begin

text \<open>
  Component setup: the render collects, through \<open>useWaitOn\<close>, the promise of each
  watch's deferred first run (\<open>Promise.resolve().then(() => runWatch(watch, ...))\<close>,
  line 141) and of each mount function's invocation (\<open>mountQrl.invoke()\<close>, lines 335,
  420, 497), and the renderer awaits all of them, as \<open>Promise.all\<close> does: setup is
  rejected as soon as one of them rejects, never completes while one of them stays
  pending, and is resolved when all are fulfilled. A mount function (\<open>ServerFn\<close>, line
  32) is resolved like a watch body, by its QRL, and takes no tracker: calling one throws.
  The awaits complete in the order they were collected; the awaited values of the
  environment (a database, \<open>fetch\<close>, \<open>document.location\<close>) are constants of the body.
\<close>

datatype wait_status = W_fulfilled | W_rejected | W_pending

datatype setup_outcome = Setup_resolved | Setup_rejected | Setup_pending

text \<open>What the promise of a run does, from the phase it ends in.\<close>

fun status_of :: "phase \<Rightarrow> wait_status" where
  "status_of Fulfilled = W_fulfilled"
| "status_of Rejected = W_rejected"
| "status_of _ = W_pending"

text \<open>The body of a mount function: writes, until the first throw; a tracker call throws
  too, as \<open>track\<close> is not defined in it.\<close>

fun exec_mount :: "action list \<Rightarrow> rstate \<Rightarrow> rstate \<times> bool" where
  "exec_mount [] s = (s, False)"
| "exec_mount (Write t p e # as) s = exec_mount as (write_prop t p (e (store s)) s)"
| "exec_mount (Track obj p # as) s = (s, True)"
| "exec_mount (Throw # as) s = (s, True)"

text \<open>\<open>mountQrl.invoke()\<close>: the function the QRL names runs; its promise rejects when
  it throws or the promise it returns rejects.\<close>

definition invoke_mount :: "env \<Rightarrow> qrl \<Rightarrow> rstate \<Rightarrow> rstate \<times> wait_status" where
  "invoke_mount env mq s =
     (let fn = fn_of env (q_chunk mq, q_symbol mq)
      in case exec_mount (script fn) s of
           (s', True) \<Rightarrow> (s', W_rejected)
         | (s', False) \<Rightarrow> (s', if result fn = Async_reject then W_rejected else W_fulfilled))"

text \<open>Awaiting the deferred first run of a watch: the scheduler call, then the settlement
  of the body's promise when the run waits for it.\<close>

definition await_run :: "env \<Rightarrow> wid \<Rightarrow> rstate \<Rightarrow> rstate \<times> wait_status" where
  "await_run env w s =
     (let s1 = fst (runWatch env w s); p = next_pid s
      in case runs s1 p of
           None \<Rightarrow> (s1, W_fulfilled)
         | Some r \<Rightarrow> (case phase r of
                       Awaiting v \<Rightarrow> (let s2 = settle_run p s1 in (s2, status_of (phase (the (runs s2 p)))))
                     | ph \<Rightarrow> (s1, status_of ph)))"

fun await_wait :: "env \<Rightarrow> wait \<Rightarrow> rstate \<Rightarrow> rstate \<times> wait_status" where
  "await_wait env (Deferred_run w) s = await_run env w s"
| "await_wait env (Mount_invoked mq) s = invoke_mount env mq s"

fun await_all :: "env \<Rightarrow> wait list \<Rightarrow> rstate \<Rightarrow> rstate \<times> wait_status list" where
  "await_all env [] s = (s, [])"
| "await_all env (x # xs) s =
     (case await_wait env x s of (s1, st) \<Rightarrow> (case await_all env xs s1 of (s2, sts) \<Rightarrow> (s2, st # sts)))"

text \<open>\<open>Promise.all\<close> over the statuses.\<close>

definition promise_all :: "wait_status list \<Rightarrow> setup_outcome" where
  "promise_all sts = (if W_rejected \<in> set sts then Setup_rejected
                      else if W_pending \<in> set sts then Setup_pending else Setup_resolved)"

definition component_setup :: "env \<Rightarrow> hstate \<Rightarrow> rstate \<times> setup_outcome" where
  "component_setup env h = (case await_all env (wait_on h) (rt h) of (s, sts) \<Rightarrow> (s, promise_all sts))"

text \<open>A mount body that neither throws nor calls a tracker.\<close>

fun mount_safe :: "action list \<Rightarrow> bool" where
  "mount_safe [] = True"
| "mount_safe (Write t p e # as) = mount_safe as"
| "mount_safe (_ # as) = False"

subsection \<open>Properties of setup\<close>

lemma exec_mount_threw: "snd (exec_mount as s) \<longleftrightarrow> \<not> mount_safe as"
  by (induction as s rule: exec_mount.induct) simp_all

lemma invoke_mount_status:
  "snd (invoke_mount env mq s) =
     (if \<not> mount_safe (script (fn_of env (q_chunk mq, q_symbol mq)))
         \<or> result (fn_of env (q_chunk mq, q_symbol mq)) = Async_reject then W_rejected else W_fulfilled)"
  using exec_mount_threw [of "script (fn_of env (q_chunk mq, q_symbol mq))" s]
  by (auto simp add: invoke_mount_def Let_def split: prod.split bool.split)

lemma exec_script_unsafe:
  "\<not> script_safe as \<Longrightarrow> \<exists>e. snd (exec_script w as s) = Some e"
proof (induction w as s rule: exec_script.induct)
  case (2 w obj p as s)
  then show ?case by (cases obj) (simp_all add: track_Proxy track_Plain)
qed simp_all

lemma await_run_status:
  assumes "is_dirty (desc s w)" "w_running (desc s w) = None"
  shows "snd (await_run env w s) =
     (if \<not> script_safe (script (body_of env (desc s w))) then W_rejected
      else if result (body_of env (desc s w)) = Async_reject then W_pending else W_fulfilled)"
proof -
  let ?p = "next_pid s"
  let ?fn = "body_of env (desc s w)"
  let ?X = "(clear_dirty w s)\<lparr>next_pid := Suc ?p\<rparr>"
  obtain X' c where wc: "watch_cont env w ?p ?X = (X', c)" by fastforce
  have b: "body_of env (desc ?X w) = ?fn" by (simp add: body_of_def clear_dirty_def)
  have r: "runs (fst (runWatch env w s)) ?p = Some \<lparr>owner = w, phase = executor_phase c\<rparr>"
    using assms wc by (simp add: runWatch_def is_dirty_def Let_def clear_dirty_def)
  show ?thesis
  proof (cases "script_safe (script ?fn)")
    case True
    then have c: "c = cont_of (result ?fn)" using watch_cont_safe [of env ?X w ?p] b wc by simp
    show ?thesis
      using r c True by (cases "result ?fn")
        (simp_all add: await_run_def cont_of_def settle_run_def store_return_def Let_def split: ret.split)
  next
    case False
    have "\<exists>e. c = Cont_threw e"
    proof -
      let ?s2 = "emit [Subs_cleared w, Body_invoked w ?p] ((cleanupWatch env w ?X)\<lparr>subs := clearSub w (subs ?X)\<rparr>)"
      obtain e where "snd (exec_script w (script ?fn) ?s2) = Some e"
        using exec_script_unsafe [OF False] by blast
      then show ?thesis using wc b by (auto simp add: watch_cont_unfold split: prod.splits)
    qed
    with r False show ?thesis by (auto simp add: await_run_def)
  qed
qed


lemma promise_all_single [simp]:
  "promise_all [W_fulfilled] = Setup_resolved" "promise_all [W_rejected] = Setup_rejected"
  "promise_all [W_pending] = Setup_pending"
  by (simp_all add: promise_all_def)

lemma useMountQrl_wait:
  "\<not> hook_taken s \<Longrightarrow> wait_on (useMountQrl mq s) = wait_on s @ [Mount_invoked mq] \<and> rt (useMountQrl mq s) = rt s"
  by (simp add: hook_taken_def useMountQrl_def hook_defs)

text \<open>C32 (error paths of setup): the first run of a tracked watch blocks the setup of its
  component. At a fresh call site of a component with nothing collected yet, the setup of
  \<open>useWatchQrl\<close> rejects when the body throws or calls a tracker on a plain object. It
  stays pending for ever when the body's promise rejects, and resolves otherwise. The setup
  of \<open>useMountQrl\<close> rejects when the mount function throws, calls a tracker, or returns a
  rejecting promise, and resolves otherwise.\<close>

theorem setup_awaits_first_run:
  assumes "\<not> hook_taken s" "wait_on s = []"
  shows "snd (component_setup env (useWatchQrl q opts s)) =
           (if \<not> script_safe (script (fn_of env (q_chunk q, q_symbol q))) then Setup_rejected
            else if result (fn_of env (q_chunk q, q_symbol q)) = Async_reject then Setup_pending
            else Setup_resolved)
     \<and> snd (component_setup env (useMountQrl mq s)) =
           (if \<not> mount_safe (script (fn_of env (q_chunk mq, q_symbol mq)))
               \<or> result (fn_of env (q_chunk mq, q_symbol mq)) = Async_reject then Setup_rejected
            else Setup_resolved)"
proof
  let ?h = "useWatchQrl q opts s"
  let ?w = "next_wid s"
  have wo: "wait_on ?h = [Deferred_run ?w]" using useWatchQrl_registers_wait [OF assms(1)] assms(2) by simp
  have d: "desc (rt ?h) ?w = new_descriptor q (host s) (WatchFlagsIsDirty OR WatchFlagsIsWatch) (seq_idx s)"
    by (simp add: useWatchQrl_rt [OF assms(1)])
  have dirty: "is_dirty (desc (rt ?h) ?w)" and nr: "w_running (desc (rt ?h) ?w) = None"
    using d by (simp_all add: new_descriptor_dirty)
  have b: "body_of env (desc (rt ?h) ?w) = fn_of env (q_chunk q, q_symbol q)"
    using d by (simp add: body_of_def new_descriptor_def)
  obtain s1 st where aw: "await_run env ?w (rt ?h) = (s1, st)" by fastforce
  show "snd (component_setup env ?h) =
           (if \<not> script_safe (script (fn_of env (q_chunk q, q_symbol q))) then Setup_rejected
            else if result (fn_of env (q_chunk q, q_symbol q)) = Async_reject then Setup_pending
            else Setup_resolved)"
    using await_run_status [OF dirty nr, of env] aw b wo
    by (simp add: component_setup_def)
next
  obtain s1 st where im: "invoke_mount env mq (rt s) = (s1, st)" by fastforce
  show "snd (component_setup env (useMountQrl mq s)) =
           (if \<not> mount_safe (script (fn_of env (q_chunk mq, q_symbol mq)))
               \<or> result (fn_of env (q_chunk mq, q_symbol mq)) = Async_reject then Setup_rejected
            else Setup_resolved)"
    using useMountQrl_wait [OF assms(1), of mq] assms(2) invoke_mount_status [of env mq "rt s"] im
    by (simp add: component_setup_def)
qed


theorem setup_awaits_first_run_witness:
  "\<not> hook_taken \<lparr>rt = demo_state, ectx = (\<lambda>_. \<lparr>seq = Map.empty, watches = []\<rparr>), host = 0,
       seq_idx = 0, wait_on = [], triggers = [], is_server = False, observer = False,
       observed = [], next_wid = 0\<rparr>
   \<and> snd (component_setup (demo_env\<lparr>fn_of := \<lambda>_. \<lparr>script = [], result = Async_reject\<rparr>\<rparr>)
       (useWatchQrl demo_qrl None \<lparr>rt = demo_state, ectx = (\<lambda>_. \<lparr>seq = Map.empty, watches = []\<rparr>),
          host = 0, seq_idx = 0, wait_on = [], triggers = [], is_server = False, observer = False,
          observed = [], next_wid = 0\<rparr>)) = Setup_pending
   \<and> snd (component_setup (demo_env\<lparr>fn_of := \<lambda>_. \<lparr>script = [], result = Async_reject\<rparr>\<rparr>)
       (useMountQrl demo_qrl \<lparr>rt = demo_state, ectx = (\<lambda>_. \<lparr>seq = Map.empty, watches = []\<rparr>),
          host = 0, seq_idx = 0, wait_on = [], triggers = [], is_server = False, observer = False,
          observed = [], next_wid = 0\<rparr>)) = Setup_rejected"
proof -
  let ?s = "\<lparr>rt = demo_state, ectx = (\<lambda>_. \<lparr>seq = Map.empty, watches = []\<rparr>), host = 0,
       seq_idx = 0, wait_on = [], triggers = [], is_server = False, observer = False,
       observed = [], next_wid = 0\<rparr>"
  have h: "\<not> hook_taken ?s" by (simp add: hook_taken_def slot_truthy_def)
  show ?thesis
    using setup_awaits_first_run [OF h, of "demo_env\<lparr>fn_of := \<lambda>_. \<lparr>script = [], result = Async_reject\<rparr>\<rparr>" demo_qrl None demo_qrl]
    by (simp add: h)
qed

end
