(* ===== verification/Spec2Isabelle.thy ===== *)
theory Spec2Isabelle
  imports Examples Setup
begin

text \<open>
  \<^bold>\<open>The reactive watch/effect core of Qwik.\<close>
  This development models \<open>src/packages/qwik/src/core/use/use-watch.ts\<close>: the effect
  descriptor, its flags, the runner \<open>runWatch\<close> with its tracker and cleanup, the
  teardown \<open>destroyWatch\<close>, the five lifecycle registrars and the run-trigger adapter.

  \<^bold>\<open>Parts and theories.\<close>
  \<^item> \<open>Prelude\<close>: the model's types (descriptor, promise, cleanup, target and element ids
    as \<open>nat\<close>; flag words as \<open>32 word\<close>, the width of JavaScript's bitwise operators),
    \<open>has_flag\<close> for \<open>x & m\<close> as a condition, and the bit lemmas of \<open>flag_simps\<close>.
  \<^item> \<open>Watch_Descriptor\<close> (lines 19--64): the masks \<open>WatchFlagsIs*\<close>, the QRL, the
    \<open>WatchDescriptor\<close> record, the run options, and the dynamic tests
    \<open>isWatchDescriptor\<close>/\<open>isWatchCleanup\<close> over a small JavaScript value type; the
    type \<open>flags_wf\<close> of a flag word (only the four masks, never both kinds).
  \<^item> \<open>Subscriptions\<close>: the store and the subscription manager (external; modelled from
    their contract as a set of edges) and the tracker closure of \<open>runWatch\<close> (556--566).
  \<^item> \<open>Runner\<close> (537--600): the runtime state \<open>rstate\<close> is the descriptor heap
    \<open>desc\<close> (descriptors are shared objects, so they live in a store indexed by id), the
    reactive store, the subscription edges, the table of run promises with their phases,
    and a log of observable calls. \<open>runWatch\<close>, \<open>cleanupWatch\<close> and
    \<open>destroyWatch\<close> are one definition each; the continuation passed to
    \<open>then(watch.running, ...)\<close> is \<open>watch_cont\<close>; a body is a script of tracker calls,
    store writes (the written value a function of the store) and throws, with a
    synchronous or asynchronous outcome.
    \<open>then(undefined, k)\<close> runs \<open>k\<close> at once inside the promise executor
    (\<open>executor_phase\<close>); a later run is a reaction that fires once the previous run's
    promise is fulfilled (\<open>fire_run\<close>, \<open>reaction_phase\<close>); a returned promise settles
    later (\<open>settle_run\<close>).
  \<^item> \<open>Scheduler\<close>: the runtime as an inductive step relation \<open>step\<close> over the events
    \<open>Sched\<close> (the render scheduler calls \<open>runWatch\<close>), \<open>Fire\<close>, \<open>Settle\<close>,
    \<open>Mutate\<close> (a store write notifying subscribers) and \<open>Destroy\<close>, in any order, with
    the executable \<open>exec_events\<close> for concrete traces (each of its events is a
    step) and \<open>reach\<close> for the states reachable from a state without runs.
  \<^item> \<open>Registrars\<close> (128--147, 240--258, 329--338, 414--423, 493--499, 645--665):
    \<open>useWatchQrl\<close>, \<open>useClientEffectQrl\<close>, \<open>useServerMountQrl\<close>,
    \<open>useClientMountQrl\<close>, \<open>useMountQrl\<close>, their \<open>$\<close> forms (\<open>implicit$FirstArg\<close>
    with the closure-to-QRL conversion as a parameter, lines 211, 287, 380, 457, 535),
    \<open>useRunWatch\<close>, \<open>getWatchHandlerQrl\<close> and the trigger handler \<open>handleWatch\<close>
    (defined in the render module, modelled from its contract: mark the captured
    descriptor dirty), over a hook state holding the runtime, the
    elements' sequential-scope slots and effect lists, the render cursor, and what the
    render collects (awaited promises, run triggers, observed elements); \<open>render\<close> runs a
    component's hooks from cursor 0.
  \<^item> \<open>Examples\<close>: the components of the documentation comments, written with the
    \<open>$\<close> forms: the double-count and debouncer \<open>Cmp\<close> of \<open>useWatch$\<close> (lines
    90--112, 172--205), the \<open>Timer\<close> of \<open>useClientEffect$\<close> (216--235) and the
    \<open>Cmp\<close> of the \<open>Tracker\<close> (618--632); the deferred first runs a render queues
    (line 141) become scheduler calls, and writes of the store from outside are
    \<open>Mutate\<close> events followed by the reruns they cause.
  \<^item> \<open>Refinement\<close>: the specification's sequential run (spec 4.2) and the abstraction
    forgetting promises, under which the runtime implements it.
  \<^item> \<open>Setup\<close>: what component setup awaits. The render's \<open>useWaitOn\<close> list holds
    the promise of each watch's deferred first run (line 141, \<open>await_run\<close>: the
    scheduler call, then the settlement of the body's promise) and of each mount
    function's invocation (lines 335, 420, 497, \<open>invoke_mount\<close>, with the
    \<open>ServerFn\<close> of line 32 run by \<open>exec_mount\<close>). The renderer awaits them in order
    and combines them as \<open>Promise.all\<close> does (\<open>component_setup\<close>, modelled from the
    spec, as the renderer is not under src/).
  \<^item> This theory: the properties that span registration, triggers and runs.

  \<^bold>\<open>What is proved.\<close>
  Runner: a clean descriptor is not run (C1); one run cleans up, clears the subscriptions,
  then invokes the body, in that order (C2), and leaves exactly the subscriptions the body
  tracked (C3); the first run is synchronous and later ones are chained (C14); destroy
  calls the cleanup once (C15) or, for a cleanup descriptor, the bare callback (C16); a
  tracker assertion on a first run rejects it and stops the body (C24).
  Scheduler: the invariant \<open>runs_inv\<close> of the run table holds in every reachable state,
  hence at most one run per descriptor is in flight (C4) and runs of a descriptor start in
  order, each after the previous is fulfilled (C5); dirtiness persists until a run (C6);
  what a first run tracked is what later writes notify (C7); a failed run blocks all later
  runs of its descriptor (C8); a write during a run queues a new run blocked on the
  current one without aborting it (C25); a chained run fires once its predecessor is
  fulfilled (C26); destroy does not cancel a run queued behind the in-flight one, whose
  body then runs after the teardown (C33).
  Registrars: renders are idempotent (C9) and keep the registration invariant (C10); the
  registrars' effects at a fresh call site (C11--C13); a render registers the same
  descriptors on the server and on the client, the platform only changing the wait list
  and the run triggers (C34). Tracker contract and its empty-name corner (C17, C18); the
  flag word survives the dynamic type test (C19).
  Across components: a registered watch's first run invokes its body (C20); a client
  effect runs only after its trigger fires (C21); destroying a descriptor while its body's
  promise is pending calls only the cleanup stored before, and the cleanup the promise
  delivers is left stored on the destroyed descriptor (C22); rendering keeps the
  scheduler's run-table invariant for freshly allocated descriptors (C23); no step or
  render breaks the type of a flag word (C31); setup awaits a tracked watch's first run,
  so a throwing body rejects it and a rejecting body promise leaves it pending for ever,
  and a mount rejects it exactly when its function throws or rejects (C32).
  Documented components, over any number of inputs: in the useWatch example, every write
  of \<open>count\<close> propagates through the double-count watch to the debouncer, whose timer
  is cleared before each of its reruns (C27); the \<open>Timer\<close> effect runs once, after its
  trigger, whatever its interval writes (C28); the \<open>Tracker\<close> example keeps
  \<open>doubleCount = 2 * count\<close> over any sequence of clicks (C29). A run of the runtime
  refines the specification's sequential run (C30).

  \<^bold>\<open>Bounds and fuel.\<close> No loop of the source can diverge: the body is a finite script
  and every operation is a total function, so no fuel is used; the inputs of the
  documented components are arbitrary lists, handled by induction. Flag words are
  \<open>32 word\<close>s, the width of JavaScript's bitwise operators after \<open>ToInt32\<close>. The
  event loop is over-approximated by letting the step relation take enabled events in any
  order; the invariants hold for all interleavings, and so for the one JavaScript picks.

  \<^bold>\<open>Not modelled.\<close> The closure-to-QRL conversion \<open>$\<close> of the optimizer (a
  parameter of the \<open>$\<close> forms), logging, document and invocation-context
  construction (\<open>getDocument\<close>, \<open>newInvokeContext\<close>), platform detection (an input
  bit \<open>is_server\<close>), serialization markers (\<open>noSerialize\<close>) and the QRL loader: the
  body a QRL denotes and whether a cleanup throws are parameters of the runtime
  (\<open>env\<close>). The render scheduler's choice of when to call \<open>runWatch\<close> is the
  nondeterminism of \<open>step\<close>. A mount function runs to completion when setup
  awaits it, and what it awaits from outside is a constant of its body. The collected promises are run in the order collected, each
  to its end, and their outcomes are combined as \<open>Promise.all\<close> does: a rejection wins
  over a promise that stays pending. Timer callbacks of the documented components are store writes of the
  environment. The lines of \<open>use-watch.ts\<close> that no definition translates are the imports
  (1--18), the prose of the documentation comments, the JSX each example returns (a view
  of the store, which no operation of this file reads), the mount examples (298--306,
  391--399, 511--521: a mount function writing one store field, which C12 and C32 cover
  for every mount function), and the second copy of the
  useClientEffect, useServerMount, useClientMount and useMount examples, which documents
  the \<open>$\<close> form with the same component (lines 265--281, 349--366, 434--449,
  469--486) and is modelled by the definitions of the first copy. Every exported
  function, every type the functions read and every branch of their bodies is a
  definition of the development. The written value of a store write may read the store: a body's local
  constant bound from a tracker call is read back from the store, which holds the same
  value until the body writes that property.
\<close>

unbundle bit_operations_syntax

text \<open>C20 (a watch's deferred first run): after \<open>useWatchQrl\<close> registers a descriptor at
  a fresh call site, the first \<open>runWatch\<close> of it invokes the body the descriptor's QRL
  names, synchronously and under the first free promise id.\<close>

theorem useWatch_first_run:
  assumes "\<not> hook_taken s"
  shows "Body_invoked (next_wid s) (next_pid (rt s))
           \<in> set (events (fst (runWatch env (next_wid s) (rt (useWatchQrl q opts s)))))
     \<and> body_of env (desc (rt (useWatchQrl q opts s)) (next_wid s)) = fn_of env (q_chunk q, q_symbol q)"
proof -
  let ?s = "rt (useWatchQrl q opts s)"
  have d: "desc ?s (next_wid s) = new_descriptor q (host s) (WatchFlagsIsDirty OR WatchFlagsIsWatch) (seq_idx s)"
    and n: "next_pid ?s = next_pid (rt s)"
    by (simp_all add: useWatchQrl_rt [OF assms])
  have "Body_invoked (next_wid s) (next_pid ?s) \<in> set (events (fst (runWatch env (next_wid s) ?s)))"
    by (rule runWatch_first_invokes) (simp_all add: d new_descriptor_dirty)
  then show ?thesis by (simp add: n d body_of_def new_descriptor_def)
qed

text \<open>C21 (a client effect waits for its trigger): the descriptor \<open>useClientEffectQrl\<close>
  registers is not dirty, so running it does nothing; the one trigger it registers calls a
  handler that, once fired, makes the next \<open>runWatch\<close> invoke the body.\<close>

theorem client_effect_runs_on_trigger:
  assumes "\<not> hook_taken s"
  shows "runWatch env (next_wid s) (rt (useClientEffectQrl q opts s))
           = (rt (useClientEffectQrl q opts s), Resolved_now (next_wid s))
     \<and> (\<exists>tr. triggers (useClientEffectQrl q opts s) = triggers s @ [tr]
          \<and> Body_invoked (next_wid s) (next_pid (rt s)) \<in> set (events (fst (runWatch env (next_wid s)
               (handleWatch (trigger_qrl tr) (rt (useClientEffectQrl q opts s)))))))"
proof -
  let ?s = "rt (useClientEffectQrl q opts s)"
  let ?d = "new_descriptor q (host s) WatchFlagsIsEffect (seq_idx s)"
  have d: "desc ?s (next_wid s) = ?d" and n: "next_pid ?s = next_pid (rt s)"
    by (simp_all add: useClientEffectQrl_rt [OF assms])
  obtain tr where tr: "triggers (useClientEffectQrl q opts s) = triggers s @ [tr]"
    and h: "trigger_qrl tr = getWatchHandlerQrl (next_wid s) ?d"
    using useClientEffectQrl_trigger [OF assms, of q opts] by (auto simp add: trigger_qrl_def)
  have hw: "handleWatch (trigger_qrl tr) ?s = upd_desc (next_wid s) notifyWatch ?s"
    by (simp add: h handleWatch_def getWatchHandlerQrl_def)
  have "Body_invoked (next_wid s) (next_pid (upd_desc (next_wid s) notifyWatch ?s))
          \<in> set (events (fst (runWatch env (next_wid s) (upd_desc (next_wid s) notifyWatch ?s))))"
    by (rule runWatch_first_invokes) (simp_all add: d new_descriptor_dirty)
  moreover have "runWatch env (next_wid s) ?s = (?s, Resolved_now (next_wid s))"
    using new_descriptor_dirty(2) [of q "host s" "seq_idx s"] d by (simp add: runWatch_def is_dirty_def)
  ultimately show ?thesis using tr hw n by auto
qed

text \<open>C22 (destroy during an asynchronous run): destroying a descriptor while its run
  awaits the promise its body returned, and then letting that promise fulfil with a
  cleanup function, is an enabled trace. The only cleanup the trace calls is the one
  stored before the destroy; the cleanup the promise delivers ends up stored on the
  destroyed descriptor without being called. The element's teardown has already made its
  one call of \<open>destroyWatch\<close>, so only a further destroy or a rerun of the torn-down
  descriptor could call it.\<close>

theorem destroy_during_async_run:
  assumes "runs s p = Some r" "owner r = w" "phase r = Awaiting (Some (Ret_fn c))"
    "\<not> has_flag (w_f (desc s w)) WatchFlagsIsCleanup"
  shows "\<exists>s'. exec_events env [Destroy w, Settle p] s = Some s'
     \<and> events s' = events s @ cleanup_events env w (desc s w)
     \<and> w_destroy (desc s' w) = Some c
     \<and> runs s' p = Some (r\<lparr>phase := Fulfilled\<rparr>)"
  using assms by (simp add: settle_enabled_def settle_run_def destroyWatch_def store_return_def
      cleanupWatch_events)

theorem useWatch_first_run_witness:
  "\<not> hook_taken demo_hstate \<and>
   Body_invoked 0 0 \<in> set (events (fst (runWatch demo_env 0 (rt (useWatchQrl demo_qrl None demo_hstate)))))"
proof -
  have h: "\<not> hook_taken demo_hstate" by (simp add: hook_taken_def demo_hstate_def slot_truthy_def)
  from useWatch_first_run [OF h, where env = demo_env and q = demo_qrl and opts = None] show ?thesis
    using h by (simp add: demo_hstate_def demo_state_def)
qed

theorem client_effect_runs_on_trigger_witness:
  "\<not> hook_taken demo_hstate \<and>
   runWatch demo_env 0 (rt (useClientEffectQrl demo_qrl None demo_hstate))
     = (rt (useClientEffectQrl demo_qrl None demo_hstate), Resolved_now 0)"
proof -
  have h: "\<not> hook_taken demo_hstate" by (simp add: hook_taken_def demo_hstate_def slot_truthy_def)
  from client_effect_runs_on_trigger [OF h, where env = demo_env and q = demo_qrl and opts = None]
  show ?thesis using h by (simp add: demo_hstate_def)
qed

theorem destroy_during_async_run_witness:
  "runs (fst (runWatch demo_async_env 0 demo_state)) 0 = Some \<lparr>owner = 0, phase = Awaiting (Some (Ret_fn 1))\<rparr> \<and>
   \<not> has_flag (w_f (desc (fst (runWatch demo_async_env 0 demo_state)) 0)) WatchFlagsIsCleanup \<and>
   (\<exists>s'. exec_events demo_async_env [Destroy 0, Settle 0] (fst (runWatch demo_async_env 0 demo_state)) = Some s'
      \<and> w_destroy (desc s' 0) = Some 1)"
proof -
  let ?s = "fst (runWatch demo_async_env 0 demo_state)"
  have r: "runs ?s 0 = Some \<lparr>owner = 0, phase = Awaiting (Some (Ret_fn 1))\<rparr>"
    and f: "\<not> has_flag (w_f (desc ?s 0)) WatchFlagsIsCleanup"
    by (simp_all add: run_eval)
  obtain s' where "exec_events demo_async_env [Destroy 0, Settle 0] ?s = Some s'" "w_destroy (desc s' 0) = Some 1"
    using destroy_during_async_run [OF r _ _ f, where env = demo_async_env] by auto
  then show ?thesis using r f by blast
qed

text \<open>One hook keeps the run-table invariant when ids from the next free one on have no run.\<close>

lemma apply_hook_runs_inv:
  assumes "runs_inv (rt s)" "\<forall>w \<ge> next_wid s. w_running (desc (rt s) w) = None"
  shows "runs_inv (rt (apply_hook h s)) \<and> (\<forall>w \<ge> next_wid (apply_hook h s). w_running (desc (rt (apply_hook h s)) w) = None)"
  using apply_hook_rt [of h s]
proof
  assume "rt (apply_hook h s) = rt s \<and> next_wid (apply_hook h s) = next_wid s"
  with assms show ?thesis by simp
next
  let ?d = "desc (rt (apply_hook h s)) (next_wid s)"
  assume a: "w_running ?d = None \<and> rt (apply_hook h s) = (rt s)\<lparr>desc := (desc (rt s))(next_wid s := ?d)\<rparr>
      \<and> next_wid (apply_hook h s) = Suc (next_wid s)"
  have "runs_inv ((rt s)\<lparr>desc := (desc (rt s))(next_wid s := ?d)\<rparr>)"
    using assms a by (intro runs_inv_fresh_desc) auto
  with a assms(2) show ?thesis by (metis (no_types, lifting) Suc_leD fun_upd_other not_less_eq_eq rstate.select_convs(1) rstate.surjective rstate.update_convs(1))
qed

text \<open>C23 (registration and scheduling agree): rendering a component keeps the run-table
  invariant of the runtime, provided the descriptor ids from the next free one on have
  no run, and it keeps that proviso; so the scheduler's guarantees hold for descriptors
  registered between runs.\<close>

theorem render_runs_inv:
  assumes "runs_inv (rt s)" "\<forall>w \<ge> next_wid s. w_running (desc (rt s) w) = None"
  shows "runs_inv (rt (render hs s)) \<and> (\<forall>w \<ge> next_wid (render hs s). w_running (desc (rt (render hs s)) w) = None)"
proof -
  have "runs_inv (rt (fold apply_hook hs t)) \<and> (\<forall>w \<ge> next_wid (fold apply_hook hs t). w_running (desc (rt (fold apply_hook hs t)) w) = None)"
    if "runs_inv (rt t)" "\<forall>w \<ge> next_wid t. w_running (desc (rt t) w) = None" for t
    using that
  proof (induction hs arbitrary: t)
    case (Cons h hs)
    then show ?case using apply_hook_runs_inv [OF Cons.prems] by simp
  qed simp
  with assms show ?thesis by (simp add: render_def)
qed

theorem render_runs_inv_witness:
  "runs_inv (rt demo_hstate) \<and>
   runs_inv (rt (render [Use_watch demo_qrl None, Use_client_effect demo_qrl None] demo_hstate))"
proof -
  have i: "runs_inv (rt demo_hstate)"
    using runs_inv_initial [OF initial_demo_state] by (simp add: demo_hstate_def)
  have f: "\<forall>w \<ge> next_wid demo_hstate. w_running (desc (rt demo_hstate) w) = None"
    by (simp add: demo_hstate_def demo_defs)
  from render_runs_inv [OF i f, of "[Use_watch demo_qrl None, Use_client_effect demo_qrl None]"] i f
  show ?thesis by simp
qed

text \<open>C31 (flag words keep their type): no runtime step and no render produces a flag
  word outside the four masks, or one marking a descriptor as both a watch and an
  effect.\<close>

theorem flags_wf_preserved:
  "(step env s e s' \<longrightarrow> desc_wf s \<longrightarrow> desc_wf s') \<and> (desc_wf (rt h) \<longrightarrow> desc_wf (rt (render hs h)))"
  using step_flags_wf render_flags_wf by blast

theorem flags_wf_preserved_witness:
  "step demo_env demo_state (Sched 0) (fst (runWatch demo_env 0 demo_state)) \<and> desc_wf demo_state \<and>
   desc_wf (fst (runWatch demo_env 0 demo_state)) \<and>
   desc_wf (rt demo_hstate) \<and> desc_wf (rt (render [Use_watch demo_qrl None, Use_client_effect demo_qrl None] demo_hstate))"
proof -
  have st: "step demo_env demo_state (Sched 0) (fst (runWatch demo_env 0 demo_state))" by (rule step.sched)
  have w: "desc_wf demo_state" using flags_wf_new(1) by (simp add: desc_wf_def demo_defs)
  have wh: "desc_wf (rt demo_hstate)" using w by (simp add: demo_hstate_def)
  from flags_wf_preserved [of demo_env demo_state "Sched 0" "fst (runWatch demo_env 0 demo_state)"
      demo_hstate "[Use_watch demo_qrl None, Use_client_effect demo_qrl None]"] st w wh
  show ?thesis by blast
qed

end
